theory Spec2Isabelle
  imports Complex_Main
begin

section \<open>Python values and exceptions\<close>

text \<open>
  The plug-in is Python 3. A \<open>str\<close> is modelled as a \<^typ>\<open>string\<close>, one \<^typ>\<open>char\<close> per code
  point; the model therefore covers the code points U+0000 to U+00FF. An exception that
  leaves a function is the \<open>Inl\<close> side of a sum.
\<close>

datatype py_exc =
    AttributeError
  | KeyError string
  | ValueError string
  | CalledProcessError string
  | OSError string

text \<open>A \<open>dict\<close> with string keys and string values, in insertion order.\<close>

type_synonym py_dict = "(string \<times> string) list"

definition getitem :: "py_dict \<Rightarrow> string \<Rightarrow> py_exc + string" where
  "getitem d k = (case map_of d k of None \<Rightarrow> Inl (KeyError k) | Some v \<Rightarrow> Inr v)"

section \<open>The regular expressions of \<open>re\<close> that \<open>prepare_pattern\<close> uses\<close>

text \<open>
  Only the constructs that occur in the pattern are modelled: the anchor \<open>^\<close>, a single
  character of a class (or a literal), the greedy \<open>?\<close>, the greedy \<open>+\<close>, the lazy \<open>+?\<close> and
  the counted \<open>{k}\<close> over a class, concatenation, a named group \<open>(?P<g>...)\<close> and a plain
  group \<open>(...)\<close>.
\<close>

datatype rx =
    Bol
  | Atom "char \<Rightarrow> bool"
  | Opt rx
  | Plus "char \<Rightarrow> bool"
  | PlusLazy "char \<Rightarrow> bool"
  | Rep nat "char \<Rightarrow> bool"
  | Seq rx rx
  | Named string rx
  | Group rx

type_synonym captures = "(string \<times> string) list"

text \<open>
  The matcher of \<open>re\<close> backtracks: it tries the alternatives of every repetition in a fixed
  order and returns the first complete match. The functions below list the outcomes of a
  construct in exactly that order, each outcome being the text that is left.
  \<open>c+\<close> prefers the longest run, \<open>c+?\<close> the shortest.
\<close>

fun plus_greedy :: "(char \<Rightarrow> bool) \<Rightarrow> string \<Rightarrow> string list" where
  "plus_greedy p [] = []"
| "plus_greedy p (c # cs) = (if p c then plus_greedy p cs @ [cs] else [])"

fun plus_lazy :: "(char \<Rightarrow> bool) \<Rightarrow> string \<Rightarrow> string list" where
  "plus_lazy p [] = []"
| "plus_lazy p (c # cs) = (if p c then cs # plus_lazy p cs else [])"

fun rep_exact :: "nat \<Rightarrow> (char \<Rightarrow> bool) \<Rightarrow> string \<Rightarrow> string list" where
  "rep_exact 0 p s = [s]"
| "rep_exact (Suc k) p [] = []"
| "rep_exact (Suc k) p (c # cs) = (if p c then rep_exact k p cs else [])"

text \<open>
  \<open>rx_run n r s\<close>: all ways in which \<open>r\<close> matches a prefix of \<open>s\<close>, in the order the
  backtracking matcher tries them; \<open>n\<close> is the length of the whole subject, so that \<open>s\<close>
  starts at position \<open>n - length s\<close>. An outcome is the groups captured and the text left.
\<close>

fun rx_run :: "nat \<Rightarrow> rx \<Rightarrow> string \<Rightarrow> (captures \<times> string) list" where
  "rx_run n Bol s = (if length s = n then [([], s)] else [])"
| "rx_run n (Atom p) s = (case s of [] \<Rightarrow> [] | c # cs \<Rightarrow> if p c then [([], cs)] else [])"
| "rx_run n (Opt r) s = rx_run n r s @ [([], s)]"
| "rx_run n (Plus p) s = map (Pair []) (plus_greedy p s)"
| "rx_run n (PlusLazy p) s = map (Pair []) (plus_lazy p s)"
| "rx_run n (Rep k p) s = map (Pair []) (rep_exact k p s)"
| "rx_run n (Seq a b) s =
     concat (map (\<lambda>(e1, s1). map (\<lambda>(e2, s2). (e1 @ e2, s2)) (rx_run n b s1)) (rx_run n a s))"
| "rx_run n (Named g r) s =
     map (\<lambda>(e, s'). (e @ [(g, take (length s - length s') s)], s')) (rx_run n r s)"
| "rx_run n (Group r) s = rx_run n r s"

text \<open>\<open>pattern.match(s)\<close>: the first match at position 0, or \<open>None\<close>; \<open>m.groupdict()\<close>.\<close>

definition re_match :: "rx \<Rightarrow> string \<Rightarrow> captures option" where
  "re_match r s = (case rx_run (length s) r s of [] \<Rightarrow> None | (e, _) # _ \<Rightarrow> Some e)"

definition groupdict :: "captures \<Rightarrow> py_dict" where
  "groupdict m = m"

subsection \<open>Character classes\<close>

text \<open>
  For a \<open>str\<close> pattern the classes are the Unicode ones; below U+0100 they are:
  \<open>\d\<close> the ten digits; \<open>\s\<close> the characters for which \<open>str.isspace\<close> holds (U+0009 to
  U+000D, U+001C to U+0020, U+0085, U+00A0); \<open>\w\<close> the underscore and the characters for
  which \<open>str.isalnum\<close> holds; \<open>.\<close> every character but the newline.
\<close>

definition digit_code :: "nat \<Rightarrow> bool" where
  "digit_code n = (48 \<le> n \<and> n \<le> 57)"

definition space_code :: "nat \<Rightarrow> bool" where
  "space_code n = ((9 \<le> n \<and> n \<le> 13) \<or> (28 \<le> n \<and> n \<le> 32) \<or> n = 133 \<or> n = 160)"

definition word_code :: "nat \<Rightarrow> bool" where
  "word_code n =
     ((48 \<le> n \<and> n \<le> 57) \<or> (65 \<le> n \<and> n \<le> 90) \<or> n = 95 \<or> (97 \<le> n \<and> n \<le> 122)
      \<or> n = 170 \<or> n = 178 \<or> n = 179 \<or> n = 181 \<or> n = 185 \<or> n = 186
      \<or> (188 \<le> n \<and> n \<le> 190) \<or> (192 \<le> n \<and> n \<le> 214) \<or> (216 \<le> n \<and> n \<le> 246)
      \<or> 248 \<le> n)"

definition cls_d :: "char \<Rightarrow> bool" where
  "cls_d c = digit_code (of_char c)"

definition cls_s :: "char \<Rightarrow> bool" where
  "cls_s c = space_code (of_char c)"

definition cls_w :: "char \<Rightarrow> bool" where
  "cls_w c = word_code (of_char c)"

definition cls_dot :: "char \<Rightarrow> bool" where
  "cls_dot c = (c \<noteq> CHR 0x0A)"

definition cls_file :: "char \<Rightarrow> bool" where
  "cls_file c = (\<not> cls_s c \<or> c = CHR '' '')"

definition cls_sign :: "char \<Rightarrow> bool" where
  "cls_sign c = (c = CHR ''+'' \<or> c = CHR ''-'')"

definition lit :: "char \<Rightarrow> char \<Rightarrow> bool" where
  "lit a c = (c = a)"

section \<open>\<open>BlameShowAll.prepare_pattern\<close> and \<open>BlameShowAll.parse_blame\<close>\<close>

text \<open>The pattern is the concatenation of its parts, as the source builds it with \<open>+\<close>.\<close>

fun cat :: "rx \<Rightarrow> rx list \<Rightarrow> rx" where
  "cat r [] = r"
| "cat r (x # xs) = Seq r (cat x xs)"

definition p_sha :: rx where
  "p_sha = Named ''sha'' (Seq (Opt (Atom (lit CHR ''^''))) (Plus cls_w))"

definition p_file :: rx where
  "p_file = Group (Seq (Named ''file'' (Plus cls_file)) (Plus cls_s))"

definition p_author :: rx where
  "p_author = Named ''author'' (PlusLazy cls_dot)"

definition p_date :: rx where
  "p_date = Named ''date''
     (cat (Rep 4 cls_d) [Atom (lit CHR ''-''), Rep 2 cls_d, Atom (lit CHR ''-''), Rep 2 cls_d])"

definition p_time :: rx where
  "p_time = Named ''time''
     (cat (Rep 2 cls_d) [Atom (lit CHR '':''), Rep 2 cls_d, Atom (lit CHR '':''), Rep 2 cls_d])"

definition p_timezone :: rx where
  "p_timezone = Named ''timezone'' (Seq (Atom cls_sign) (Plus cls_d))"

definition p_line :: rx where
  "p_line = Named ''line_number'' (Plus cls_d)"

text \<open>The local \<open>s = r"\s+"\<close> of the source.\<close>

definition s_ws :: rx where
  "s_ws = Plus cls_s"

definition prepare_pattern :: rx where
  "prepare_pattern =
     cat Bol [p_sha, s_ws, p_file, Atom (lit CHR ''(''), p_author, s_ws, p_date, s_ws, p_time,
              s_ws, p_timezone, s_ws, p_line, Atom (lit CHR '')''), Atom (lit CHR '' '')]"

text \<open>
  \<open>parse_blame\<close> compiles the pattern on first use and keeps it in \<open>self.pattern\<close>; the
  model passes that attribute in and returns it. \<open>m.groupdict()\<close> on \<open>m = None\<close> raises
  \<open>AttributeError\<close>.
\<close>

definition parse_blame :: "rx option \<Rightarrow> string \<Rightarrow> (py_exc + py_dict) \<times> rx option" where
  "parse_blame pattern blame =
     (let pattern' = (case pattern of None \<Rightarrow> prepare_pattern | Some r \<Rightarrow> r) in
      (case re_match pattern' blame of
         None \<Rightarrow> Inl AttributeError
       | Some m \<Rightarrow> Inr (groupdict m),
       Some pattern'))"

subsection \<open>The grammar of a blame line, as the specification words it\<close>

text \<open>
  The specification gives the grammar as a sequence of pieces: sha, whitespace, file name,
  whitespace, an opening parenthesis, author, whitespace, date, whitespace, time,
  whitespace, time zone, whitespace, line number, and the closing \<open>") "\<close>. A value of
  \<open>pieces\<close> is one way of cutting the start of a line into these pieces.
\<close>

record pieces =
  g_sha :: string
  g_ws1 :: string
  g_file :: string
  g_ws2 :: string
  g_author :: string
  g_ws3 :: string
  g_date :: string
  g_ws4 :: string
  g_time :: string
  g_ws5 :: string
  g_timezone :: string
  g_ws6 :: string
  g_line_number :: string

definition is_ws :: "string \<Rightarrow> bool" where
  "is_ws u = (u \<noteq> [] \<and> list_all cls_s u)"

definition is_sha :: "string \<Rightarrow> bool" where
  "is_sha u = (case u of [] \<Rightarrow> False
     | c # cs \<Rightarrow> if c = CHR ''^'' then cs \<noteq> [] \<and> list_all cls_w cs else list_all cls_w (c # cs))"

definition is_file :: "string \<Rightarrow> bool" where
  "is_file u = (u \<noteq> [] \<and> list_all cls_file u)"

definition is_author :: "string \<Rightarrow> bool" where
  "is_author u = (u \<noteq> [] \<and> list_all cls_dot u)"

fun fixed_form :: "(nat \<times> (char \<Rightarrow> bool)) list \<Rightarrow> string \<Rightarrow> bool" where
  "fixed_form [] u = (u = [])"
| "fixed_form ((k, p) # fs) u =
     (k \<le> length u \<and> list_all p (take k u) \<and> fixed_form fs (drop k u))"

definition is_date :: "string \<Rightarrow> bool" where
  "is_date u =
     fixed_form [(4, cls_d), (1, lit CHR ''-''), (2, cls_d), (1, lit CHR ''-''), (2, cls_d)] u"

definition is_time :: "string \<Rightarrow> bool" where
  "is_time u =
     fixed_form [(2, cls_d), (1, lit CHR '':''), (2, cls_d), (1, lit CHR '':''), (2, cls_d)] u"

definition is_timezone :: "string \<Rightarrow> bool" where
  "is_timezone u =
     (case u of [] \<Rightarrow> False | c # cs \<Rightarrow> cls_sign c \<and> cs \<noteq> [] \<and> list_all cls_d cs)"

definition is_line_number :: "string \<Rightarrow> bool" where
  "is_line_number u = (u \<noteq> [] \<and> list_all cls_d u)"

definition grammar_ok :: "pieces \<Rightarrow> bool" where
  "grammar_ok q =
     (is_sha (g_sha q) \<and> is_ws (g_ws1 q) \<and> is_file (g_file q) \<and> is_ws (g_ws2 q)
      \<and> is_author (g_author q) \<and> is_ws (g_ws3 q) \<and> is_date (g_date q) \<and> is_ws (g_ws4 q)
      \<and> is_time (g_time q) \<and> is_ws (g_ws5 q) \<and> is_timezone (g_timezone q) \<and> is_ws (g_ws6 q)
      \<and> is_line_number (g_line_number q))"

text \<open>The text the pieces spell, from position 0 through the closing \<open>") "\<close>.\<close>

definition assemble :: "pieces \<Rightarrow> string" where
  "assemble q =
     g_sha q @ g_ws1 q @ g_file q @ g_ws2 q @ ''('' @ g_author q @ g_ws3 q @ g_date q @ g_ws4 q
     @ g_time q @ g_ws5 q @ g_timezone q @ g_ws6 q @ g_line_number q @ '') ''"

text \<open>The record whose fields are the named pieces.\<close>

definition record_of :: "pieces \<Rightarrow> py_dict" where
  "record_of q =
     [(''sha'', g_sha q), (''file'', g_file q), (''author'', g_author q), (''date'', g_date q),
      (''time'', g_time q), (''timezone'', g_timezone q), (''line_number'', g_line_number q)]"

text \<open>The text \<open>") "\<close> occurs somewhere in \<open>s\<close>.\<close>

fun has_close :: "string \<Rightarrow> bool" where
  "has_close (c # d # cs) = ((c = CHR '')'' \<and> d = CHR '' '') \<or> has_close (d # cs))"
| "has_close cs = False"

text \<open>The line starts with text that the grammar accepts.\<close>

definition starts_with_match :: "string \<Rightarrow> bool" where
  "starts_with_match l = (\<exists>p rest. grammar_ok p \<and> l = assemble p @ rest)"

subsection \<open>What a pattern matches, apart from the order of the attempts\<close>

text \<open>
  \<open>rx_sem r pre u e\<close>: after the text \<open>pre\<close>, the pattern \<open>r\<close> can match exactly the text
  \<open>u\<close>, capturing \<open>e\<close>. It is used in proofs only.
\<close>

fun rx_sem :: "rx \<Rightarrow> string \<Rightarrow> string \<Rightarrow> captures \<Rightarrow> bool" where
  "rx_sem Bol pre u e = (pre = [] \<and> u = [] \<and> e = [])"
| "rx_sem (Atom p) pre u e = (\<exists>c. u = [c] \<and> p c \<and> e = [])"
| "rx_sem (Opt r) pre u e = (rx_sem r pre u e \<or> (u = [] \<and> e = []))"
| "rx_sem (Plus p) pre u e = (u \<noteq> [] \<and> list_all p u \<and> e = [])"
| "rx_sem (PlusLazy p) pre u e = (u \<noteq> [] \<and> list_all p u \<and> e = [])"
| "rx_sem (Rep k p) pre u e = (length u = k \<and> list_all p u \<and> e = [])"
| "rx_sem (Seq a b) pre u e =
     (\<exists>u1 u2 e1 e2. u = u1 @ u2 \<and> e = e1 @ e2 \<and> rx_sem a pre u1 e1 \<and> rx_sem b (pre @ u1) u2 e2)"
| "rx_sem (Named g r) pre u e = (\<exists>e'. e = e' @ [(g, u)] \<and> rx_sem r pre u e')"
| "rx_sem (Group r) pre u e = rx_sem r pre u e"

section \<open>Python built-ins used by \<open>run\<close>\<close>

definition bind_exc :: "py_exc + 'a \<Rightarrow> ('a \<Rightarrow> py_exc + 'b) \<Rightarrow> py_exc + 'b" where
  "bind_exc x f = (case x of Inl e \<Rightarrow> Inl e | Inr a \<Rightarrow> f a)"

text \<open>
  \<open>str.splitlines()\<close>: a line ends at \<open>\r\n\<close>, or at one of \<open>\n\<close>, \<open>\r\<close>, \<open>\v\<close>, \<open>\f\<close>, U+001C,
  U+001D, U+001E, U+0085; the line ends are dropped and a final line end opens no empty
  line.
\<close>

definition line_end_code :: "nat \<Rightarrow> bool" where
  "line_end_code n = ((10 \<le> n \<and> n \<le> 13) \<or> (28 \<le> n \<and> n \<le> 30) \<or> n = 133)"

definition is_line_end :: "char \<Rightarrow> bool" where
  "is_line_end c = line_end_code (of_char c)"

fun split_acc :: "string \<Rightarrow> string \<Rightarrow> string list" where
  "split_acc cur [] = (if cur = [] then [] else [rev cur])"
| "split_acc cur [c] = (if is_line_end c then [rev cur] else [rev (c # cur)])"
| "split_acc cur (c # d # cs) =
     (if c = CHR 0x0D \<and> d = CHR 0x0A then rev cur # split_acc [] cs
      else if is_line_end c then rev cur # split_acc [] (d # cs)
      else split_acc (c # cur) (d # cs))"

definition splitlines :: "string \<Rightarrow> string list" where
  "splitlines s = split_acc [] s"

text \<open>
  \<open>int(s)\<close> for a \<open>str\<close>: white space around the literal is skipped (U+0009 to U+000D,
  U+0020, U+0085 and U+00A0; not U+001C to U+001F), a sign may lead, and the digits may be
  grouped by single underscores; anything else raises \<open>ValueError\<close>.
\<close>

definition int_space_code :: "nat \<Rightarrow> bool" where
  "int_space_code n = ((9 \<le> n \<and> n \<le> 13) \<or> n = 32 \<or> n = 133 \<or> n = 160)"

definition cls_int_space :: "char \<Rightarrow> bool" where
  "cls_int_space c = int_space_code (of_char c)"

definition strip :: "string \<Rightarrow> string" where
  "strip s = rev (dropWhile cls_int_space (rev (dropWhile cls_int_space s)))"

fun digits_ok :: "bool \<Rightarrow> string \<Rightarrow> bool" where
  "digits_ok prev [] = prev"
| "digits_ok prev (c # cs) =
     (if cls_d c then digits_ok True cs
      else if c = CHR ''_'' \<and> prev then digits_ok False cs
      else False)"

fun digits_value :: "int \<Rightarrow> string \<Rightarrow> int" where
  "digits_value acc [] = acc"
| "digits_value acc (c # cs) = digits_value (10 * acc + (int (of_char c) - 48)) cs"

definition py_int :: "string \<Rightarrow> py_exc + int" where
  "py_int s =
     (let t = strip s;
          neg = (t \<noteq> [] \<and> hd t = CHR ''-'');
          body = (if t \<noteq> [] \<and> (hd t = CHR ''+'' \<or> hd t = CHR ''-'') then tl t else t)
      in if digits_ok False body
         then Inr ((if neg then - 1 else 1) * digits_value 0 (filter cls_d body))
         else Inl (ValueError s))"

text \<open>\<open>s * k\<close> for a \<open>str\<close> and an \<open>int\<close>: the empty string when \<open>k\<close> is not positive.\<close>

definition str_mul :: "string \<Rightarrow> int \<Rightarrow> string" where
  "str_mul s k = concat (replicate (nat k) s)"

text \<open>\<open>max\<close> of a sequence of integers; \<open>ValueError\<close> on the empty sequence.\<close>

definition py_max :: "int list \<Rightarrow> py_exc + int" where
  "py_max xs = (case xs of [] \<Rightarrow> Inl (ValueError ''max() arg is an empty sequence'')
     | y # ys \<Rightarrow> Inr (fold max ys y))"

text \<open>
  \<open>os.path\<close> is \<open>posixpath\<close> or \<open>ntpath\<close>, as \<open>os.name\<close> says. \<open>posixpath\<close> cuts a path
  at its last \<open>/\<close>; \<open>ntpath\<close> first takes the drive off (a letter with a colon, or the
  \<open>\\server\share\<close> of a UNC name) and cuts the rest at its last \<open>\\<close> or \<open>/\<close>. Both
  strip the separators at the end of the directory unless it consists of separators
  only. \<open>ntpath.splitdrive\<close> is the one of Python 3.8.
\<close>

datatype os_name = Posix | Nt

definition posix_basename :: "string \<Rightarrow> string" where
  "posix_basename p = rev (takeWhile (\<lambda>c. c \<noteq> CHR ''/'') (rev p))"

definition posix_dirname :: "string \<Rightarrow> string" where
  "posix_dirname p =
     (let head = rev (dropWhile (\<lambda>c. c \<noteq> CHR ''/'') (rev p))
      in if head \<noteq> [] \<and> \<not> list_all (\<lambda>c. c = CHR ''/'') head
         then rev (dropWhile (\<lambda>c. c = CHR ''/'') (rev head))
         else head)"

definition nt_sep :: "char \<Rightarrow> bool" where
  "nt_sep c = (c = CHR 0x5C \<or> c = CHR ''/'')"

definition nt_splitdrive :: "string \<Rightarrow> string \<times> string" where
  "nt_splitdrive p =
     (case p of
        c0 # c1 # t \<Rightarrow>
          if nt_sep c0 \<and> nt_sep c1 \<and> \<not> (case t of [] \<Rightarrow> False | c2 # _ \<Rightarrow> nt_sep c2)
          then
            (case dropWhile (\<lambda>c. \<not> nt_sep c) t of
               [] \<Rightarrow> ([], p)
             | s # u \<Rightarrow>
                 (case u of
                    [] \<Rightarrow> (p, [])
                  | m # _ \<Rightarrow>
                      if nt_sep m then ([], p)
                      else (c0 # c1 # takeWhile (\<lambda>c. \<not> nt_sep c) t
                              @ s # takeWhile (\<lambda>c. \<not> nt_sep c) u,
                            dropWhile (\<lambda>c. \<not> nt_sep c) u)))
          else if c1 = CHR '':'' then ([c0, c1], t)
          else ([], p)
      | _ \<Rightarrow> ([], p))"

definition nt_split :: "string \<Rightarrow> string \<times> string" where
  "nt_split p =
     (let (d, q) = nt_splitdrive p;
          tail = rev (takeWhile (\<lambda>c. \<not> nt_sep c) (rev q));
          head = rev (dropWhile (\<lambda>c. \<not> nt_sep c) (rev q));
          head2 = rev (dropWhile nt_sep (rev head))
      in (d @ (if head2 = [] then head else head2), tail))"

definition basename :: "os_name \<Rightarrow> string \<Rightarrow> string" where
  "basename os p = (case os of Posix \<Rightarrow> posix_basename p | Nt \<Rightarrow> snd (nt_split p))"

definition dirname :: "os_name \<Rightarrow> string \<Rightarrow> string" where
  "dirname os p = (case os of Posix \<Rightarrow> posix_dirname p | Nt \<Rightarrow> fst (nt_split p))"

subsection \<open>Paths and line numbers in plain terms\<close>

text \<open>
  \<open>splits_as os p drv d ss b\<close>: the path \<open>p\<close> reads as the drive \<open>drv\<close> (empty on POSIX), a
  directory \<open>d\<close> that does not end in a separator, the separators \<open>ss\<close> and the last
  component \<open>b\<close>, which holds no separator. On Windows a drive is a character with a
  colon, or two separators, a server name, a separator and a share name; a path without
  a drive has neither a colon in second place nor two separators at its start.
\<close>

definition is_sep :: "os_name \<Rightarrow> char \<Rightarrow> bool" where
  "is_sep os c = (case os of Posix \<Rightarrow> c = CHR ''/'' | Nt \<Rightarrow> c = CHR 0x5C \<or> c = CHR ''/'')"

definition unc_share :: "string \<Rightarrow> bool" where
  "unc_share drv =
     (case drv of
        s1 # s2 # t \<Rightarrow>
          is_sep Nt s1 \<and> is_sep Nt s2 \<and> takeWhile (\<lambda>c. \<not> is_sep Nt c) t \<noteq> []
          \<and> (case dropWhile (\<lambda>c. \<not> is_sep Nt c) t of
                [] \<Rightarrow> False
              | s3 # share \<Rightarrow> share \<noteq> [] \<and> list_all (\<lambda>c. \<not> is_sep Nt c) share)
      | _ \<Rightarrow> False)"

definition drive_shape :: "os_name \<Rightarrow> string \<Rightarrow> string \<Rightarrow> bool" where
  "drive_shape os drv rest =
     (case os of
        Posix \<Rightarrow> drv = []
      | Nt \<Rightarrow>
          (length drv = 2 \<and> drv ! 1 = CHR '':'')
          \<or> (unc_share drv \<and> (rest = [] \<or> is_sep Nt (hd rest)))
          \<or> (drv = []
              \<and> (case rest of
                    c0 # c1 # _ \<Rightarrow> c1 \<noteq> CHR '':'' \<and> \<not> (is_sep Nt c0 \<and> is_sep Nt c1)
                  | _ \<Rightarrow> True)))"

definition splits_as :: "os_name \<Rightarrow> string \<Rightarrow> string \<Rightarrow> string \<Rightarrow> string \<Rightarrow> string \<Rightarrow> bool" where
  "splits_as os p drv d ss b =
     (p = drv @ d @ ss @ b \<and> drive_shape os drv (d @ ss @ b)
      \<and> list_all (is_sep os) ss \<and> list_all (\<lambda>c. \<not> is_sep os c) b
      \<and> (d = [] \<or> \<not> is_sep os (last d)) \<and> (d = [] \<or> ss \<noteq> []))"

text \<open>The decimal numeral of a natural number.\<close>

definition digit_char :: "nat \<Rightarrow> char" where
  "digit_char d = char_of (48 + d)"

function decimal :: "nat \<Rightarrow> string" where
  "decimal n = (if n < 10 then [digit_char n] else decimal (n div 10) @ [digit_char (n mod 10)])"
  by pat_completeness auto
termination
  by (relation "measure id") auto

declare decimal.simps [simp del]

section \<open>The editor and the commands\<close>

text \<open>
  What the plug-in sees of Sublime Text. The region of a line, which the source gets from
  \<open>view.line(view.text_point(line, 0))\<close>, is kept symbolic as the line index. The content
  of a phantom is the template of \<open>templates.py\<close> filled in; the template is not part of
  the source at hand, so the content is kept as the values given to \<open>format\<close>.
\<close>

datatype region = LineRegion int

record phantom =
  ph_region :: region
  ph_sha :: string
  ph_user :: string
  ph_date :: string
  ph_time :: string

record invocation =
  cmd_line :: "string list"
  cwd :: string
  stderr_to_stdout :: bool

datatype reported = Raised py_exc | Message string

text \<open>
  The state of one view with its \<open>BlameShowAll\<close> command object. \<open>suitable\<close> is the answer
  of \<open>view_is_suitable\<close> (\<open>util.py\<close>); \<open>phantoms\<close> are the phantoms the view shows, by key;
  \<open>pattern\<close> is the attribute \<open>self.pattern\<close>; \<open>errors\<close> collects the calls of
  \<open>communicate_error\<close>, \<open>status\<close> those of \<open>sublime.status_message\<close>, and \<open>invocations\<close> the
  processes started.
\<close>

record editor =
  suitable :: bool
  file_name :: string
  phantoms :: "string \<Rightarrow> phantom list"
  settings :: "string \<rightharpoonup> bool"
  viewport_position :: "real \<times> real"
  pattern :: "rx option"
  errors :: "reported list"
  status :: "string list"
  invocations :: "invocation list"

text \<open>
  What the plug-in does not control: the platform, the outcome of a process,
  \<open>os.path.realpath\<close> (it reads the file system), and the package setting with the extra
  flags (absent when the user has not set it).
\<close>

record env =
  platform :: os_name
  git :: "invocation \<Rightarrow> py_exc + string"
  realpath :: "string \<Rightarrow> string"
  custom_blame_flags :: "string list option"

definition PHANTOM_KEY_ALL :: string where
  "PHANTOM_KEY_ALL = ''git-blame-all''"

definition SETTING_PHANTOM_ALL_DISPLAYED :: string where
  "SETTING_PHANTOM_ALL_DISPLAYED = ''git-blame-all-displayed''"

definition settings_get :: "(string \<rightharpoonup> bool) \<Rightarrow> string \<Rightarrow> bool \<Rightarrow> bool" where
  "settings_get st k d = (case st k of None \<Rightarrow> d | Some b \<Rightarrow> b)"

definition settings_set :: "string \<Rightarrow> bool \<Rightarrow> editor \<Rightarrow> editor" where
  "settings_set k b v = v\<lparr>settings := (settings v)(k \<mapsto> b)\<rparr>"

definition settings_erase :: "string \<Rightarrow> editor \<Rightarrow> editor" where
  "settings_erase k v = v\<lparr>settings := (settings v)(k := None)\<rparr>"

definition erase_phantoms :: "string \<Rightarrow> editor \<Rightarrow> editor" where
  "erase_phantoms key v = v\<lparr>phantoms := (phantoms v)(key := [])\<rparr>"

text \<open>
  \<open>self.phantom_set.update(ps)\<close>, for the set \<open>PhantomSet(view, PHANTOM_KEY_ALL)\<close>: afterwards
  the view shows exactly \<open>ps\<close> under that key.
\<close>

definition phantom_set_update :: "phantom list \<Rightarrow> editor \<Rightarrow> editor" where
  "phantom_set_update ps v = v\<lparr>phantoms := (phantoms v)(PHANTOM_KEY_ALL := ps)\<rparr>"

definition communicate_error :: "reported \<Rightarrow> editor \<Rightarrow> editor" where
  "communicate_error m v = v\<lparr>errors := errors v @ [m]\<rparr>"

definition status_message :: "string \<Rightarrow> editor \<Rightarrow> editor" where
  "status_message m v = v\<lparr>status := status v @ [m]\<rparr>"

definition get_line_point :: "int \<Rightarrow> region" where
  "get_line_point line = LineRegion line"

subsection \<open>\<open>BlameShowAll.get_blame\<close>\<close>

definition extra_flags :: "env \<Rightarrow> string list" where
  "extra_flags en = (case custom_blame_flags en of None \<Rightarrow> [] | Some fs \<Rightarrow> fs)"

definition blame_invocation :: "env \<Rightarrow> string \<Rightarrow> invocation" where
  "blame_invocation en path =
     \<lparr>cmd_line = [''git'', ''blame'', ''--show-name'', ''--minimal'', ''-w''] @ extra_flags en
         @ [''--'', basename (platform en) path],
      cwd = dirname (platform en) (realpath en path),
      stderr_to_stdout = True\<rparr>"

definition get_blame :: "env \<Rightarrow> string \<Rightarrow> editor \<Rightarrow> (py_exc + string) \<times> editor" where
  "get_blame en path v =
     (let inv = blame_invocation en path
      in (git en inv, v\<lparr>invocations := invocations v @ [inv]\<rparr>))"

subsection \<open>\<open>BlameShowAll.run\<close>\<close>

text \<open>The list comprehension over the lines: the first exception ends it.\<close>

fun parse_lines :: "rx option \<Rightarrow> string list \<Rightarrow> (py_exc + py_dict list) \<times> rx option" where
  "parse_lines pat [] = (Inr [], pat)"
| "parse_lines pat (l # ls) =
     (case parse_blame pat l of
        (Inl e, pat') \<Rightarrow> (Inl e, pat')
      | (Inr b, pat') \<Rightarrow>
          (case parse_lines pat' ls of
             (Inl e, pat'') \<Rightarrow> (Inl e, pat'')
           | (Inr bs, pat'') \<Rightarrow> (Inr (b # bs), pat'')))"

definition truthy :: "py_dict \<Rightarrow> bool" where
  "truthy b = (b \<noteq> [])"

fun author_lens :: "py_dict list \<Rightarrow> py_exc + int list" where
  "author_lens [] = Inr []"
| "author_lens (b # bs) =
     bind_exc (getitem b ''author'') (\<lambda>a.
     bind_exc (author_lens bs) (\<lambda>ls. Inr (int (length a) # ls)))"

definition max_author_len :: "py_dict list \<Rightarrow> py_exc + int" where
  "max_author_len blames = bind_exc (author_lens blames) py_max"

text \<open>The body of the loop over the records: one phantom.\<close>

definition make_phantom :: "int \<Rightarrow> py_dict \<Rightarrow> py_exc + phantom" where
  "make_phantom max_len blame =
     bind_exc (getitem blame ''line_number'') (\<lambda>ln.
     bind_exc (py_int ln) (\<lambda>line_number.
     let line_point = get_line_point (line_number - 1) in
     bind_exc (getitem blame ''author'') (\<lambda>author.
     bind_exc (getitem blame ''sha'') (\<lambda>sha.
     let user = author @ str_mul ''&nbsp;'' (max_len - int (length author)) in
     bind_exc (getitem blame ''date'') (\<lambda>date.
     bind_exc (getitem blame ''time'') (\<lambda>time.
     Inr \<lparr>ph_region = line_point, ph_sha = sha, ph_user = user, ph_date = date,
          ph_time = time\<rparr>))))))"

fun make_phantoms :: "int \<Rightarrow> py_dict list \<Rightarrow> py_exc + phantom list" where
  "make_phantoms max_len [] = Inr []"
| "make_phantoms max_len (b # bs) =
     bind_exc (make_phantom max_len b) (\<lambda>p.
     bind_exc (make_phantoms max_len bs) (\<lambda>ps. Inr (p # ps)))"

definition parse_failed_message :: string where
  "parse_failed_message =
     ''Failed to parse anything for BlameShowAll. Has git's output format changed?''"

text \<open>
  The command returns the new state and the exception that left it, if any. Only the call
  of \<open>get_blame\<close> stands in a \<open>try\<close>.
\<close>

definition show_all_run :: "env \<Rightarrow> editor \<Rightarrow> editor \<times> py_exc option" where
  "show_all_run en v =
     (if \<not> suitable v then (v, None)
      else
        let v1 = erase_phantoms PHANTOM_KEY_ALL v in
        if settings_get (settings v1) SETTING_PHANTOM_ALL_DISPLAYED False
        then (settings_set SETTING_PHANTOM_ALL_DISPLAYED False (phantom_set_update [] v1), None)
        else
          (case get_blame en (file_name v1) v1 of
             (Inl e, v2) \<Rightarrow> (communicate_error (Raised e) v2, None)
           | (Inr blame_output, v2) \<Rightarrow>
               (case parse_lines (pattern v2) (splitlines blame_output) of
                  (Inl e, pat) \<Rightarrow> (v2\<lparr>pattern := pat\<rparr>, Some e)
                | (Inr parsed, pat) \<Rightarrow>
                    let v3 = v2\<lparr>pattern := pat\<rparr>;
                        blames = filter truthy parsed
                    in if blames = []
                       then (communicate_error (Message parse_failed_message) v3, None)
                       else
                         (case bind_exc (max_author_len blames)
                                 (\<lambda>m. make_phantoms m blames) of
                            Inl e \<Rightarrow> (v3, Some e)
                          | Inr ps \<Rightarrow>
                              let v4 = phantom_set_update ps v3;
                                  v5 = settings_set SETTING_PHANTOM_ALL_DISPLAYED True v4
                              in (v5\<lparr>viewport_position := (0, snd (viewport_position v5))\<rparr>,
                                  None)))))"

subsection \<open>\<open>BlameEraseAll\<close>, \<open>on_phantom_close\<close> and \<open>BlameEraseAllListener\<close>\<close>

definition erase_all_run :: "editor \<Rightarrow> editor" where
  "erase_all_run v =
     erase_phantoms PHANTOM_KEY_ALL (status_message ''The git blame result is cleared.'' v)"

definition on_phantom_close :: "string \<Rightarrow> editor \<Rightarrow> editor" where
  "on_phantom_close href v = (if href = ''close'' then erase_all_run v else v)"

definition is_applicable :: "(string \<rightharpoonup> bool) \<Rightarrow> bool" where
  "is_applicable st = settings_get st SETTING_PHANTOM_ALL_DISPLAYED False"

definition on_modified_async :: "editor \<Rightarrow> editor" where
  "on_modified_async v = settings_erase SETTING_PHANTOM_ALL_DISPLAYED (erase_all_run v)"

text \<open>
  Sublime Text attaches a \<open>ViewEventListener\<close> to the views for which \<open>is_applicable\<close>
  holds, and calls \<open>on_modified_async\<close> of the attached listeners after a change of the
  buffer.
\<close>

definition buffer_modified :: "editor \<Rightarrow> editor" where
  "buffer_modified v = (if is_applicable (settings v) then on_modified_async v else v)"

section \<open>Concrete inputs\<close>

text \<open>
  Lines, records and editor states on which the results below are evaluated: a
  boundary-commit line, two records with authors of different lengths, a view that shows
  nothing, the same view with one phantom shown, and that view while the buffer is
  unsaved.
\<close>

definition scenario_b :: pieces where
  "scenario_b =
     \<lparr>g_sha = ''^deadbeef'', g_ws1 = '' '', g_file = ''file.py'', g_ws2 = ''   '',
      g_author = ''Alice Smith'', g_ws3 = '' '', g_date = ''2021-05-01'', g_ws4 = '' '',
      g_time = ''10:00:00'', g_ws5 = '' '', g_timezone = ''+0000'', g_ws6 = '' '',
      g_line_number = ''3''\<rparr>"

definition scenario_d :: "pieces list" where
  "scenario_d =
     [\<lparr>g_sha = ''abc1234'', g_ws1 = '' '', g_file = ''f.py'', g_ws2 = '' '',
       g_author = ''Al'', g_ws3 = '' '', g_date = ''2021-05-01'', g_ws4 = '' '',
       g_time = ''10:00:00'', g_ws5 = '' '', g_timezone = ''+0000'', g_ws6 = '' '',
       g_line_number = ''1''\<rparr>,
      \<lparr>g_sha = ''def5678'', g_ws1 = '' '', g_file = ''f.py'', g_ws2 = '' '',
       g_author = ''Bob Jones'', g_ws3 = '' '', g_date = ''2021-06-02'', g_ws4 = '' '',
       g_time = ''11:30:00'', g_ws5 = '' '', g_timezone = ''-0530'', g_ws6 = '' '',
       g_line_number = ''2''\<rparr>]"

definition example_env :: env where
  "example_env =
     \<lparr>platform = Posix, git = (\<lambda>i. Inr ''fatal: no such path''), realpath = (\<lambda>p. p),
      custom_blame_flags = None\<rparr>"

definition example_view :: editor where
  "example_view =
     \<lparr>suitable = True, file_name = ''/repo/a.py'', phantoms = (\<lambda>k. []), settings = Map.empty,
      viewport_position = (0, 0), pattern = None, errors = [], status = [], invocations = []\<rparr>"

definition example_phantom :: phantom where
  "example_phantom =
     \<lparr>ph_region = LineRegion 0, ph_sha = ''abc1234'', ph_user = ''Al'', ph_date = ''2021-05-01'',
      ph_time = ''10:00:00''\<rparr>"

definition shown_view :: editor where
  "shown_view =
     example_view\<lparr>phantoms := (\<lambda>k. [])(PHANTOM_KEY_ALL := [example_phantom]),
       settings := [SETTING_PHANTOM_ALL_DISPLAYED \<mapsto> True]\<rparr>"

definition dirty_view :: editor where
  "dirty_view = shown_view\<lparr>suitable := False\<rparr>"

definition short_env :: env where
  "short_env =
     \<lparr>platform = Posix, git = (\<lambda>i. Inr ''abc1234 a.py 1) x = 1''), realpath = (\<lambda>p. p),
      custom_blame_flags = Some [''-s'']\<rparr>"

definition contractor :: pieces where
  "contractor =
     \<lparr>g_sha = ''abc1234'', g_ws1 = '' '', g_file = ''f.py'', g_ws2 = '' '',
      g_author = ''John Smith (Contractor)'', g_ws3 = '' '', g_date = ''2021-05-01'',
      g_ws4 = '' '', g_time = ''10:00:00'', g_ws5 = '' '', g_timezone = ''+0000'', g_ws6 = '' '',
      g_line_number = ''3''\<rparr>"

definition linked_env :: env where
  "linked_env =
     \<lparr>platform = Posix, git = (\<lambda>i. Inr []),
      realpath = (\<lambda>p. if p = ''/home/u/link/a.py'' then ''/srv/repo/a.py'' else p),
      custom_blame_flags = None\<rparr>"

definition windows_env :: env where
  "windows_env = \<lparr>platform = Nt, git = (\<lambda>i. Inr []), realpath = (\<lambda>p. p), custom_blame_flags = None\<rparr>"

definition windows_path :: string where
  "windows_path = ''C:'' @ [CHR 0x5C] @ ''repo'' @ [CHR 0x5C] @ ''a.py''"

definition unc_path :: string where
  "unc_path =
     [CHR 0x5C, CHR 0x5C] @ ''srv'' @ [CHR 0x5C] @ ''share'' @ [CHR 0x5C] @ ''repo'' @ [CHR 0x5C]
     @ ''a.py''"

section \<open>The matcher finds what the pattern can match\<close>

lemma plus_greedy_iff:
  "s' \<in> set (plus_greedy p s) \<longleftrightarrow> (\<exists>u. u \<noteq> [] \<and> list_all p u \<and> s = u @ s')"
proof (induction s)
  case Nil
  then show ?case by simp
next
  case (Cons c cs)
  show ?case
  proof (cases "p c")
    case False
    then show ?thesis by (auto simp: Cons_eq_append_conv)
  next
    case True
    show ?thesis
    proof
      assume "s' \<in> set (plus_greedy p (c # cs))"
      with True have "s' \<in> set (plus_greedy p cs) \<or> s' = cs" by auto
      then show "\<exists>u. u \<noteq> [] \<and> list_all p u \<and> c # cs = u @ s'"
      proof
        assume "s' \<in> set (plus_greedy p cs)"
        with Cons.IH obtain u where "u \<noteq> []" "list_all p u" "cs = u @ s'" by blast
        with True have "c # u \<noteq> [] \<and> list_all p (c # u) \<and> c # cs = (c # u) @ s'" by simp
        then show ?thesis by blast
      next
        assume "s' = cs"
        with True have "[c] \<noteq> [] \<and> list_all p [c] \<and> c # cs = [c] @ s'" by simp
        then show ?thesis by blast
      qed
    next
      assume "\<exists>u. u \<noteq> [] \<and> list_all p u \<and> c # cs = u @ s'"
      then obtain u where u: "u \<noteq> []" "list_all p u" "c # cs = u @ s'" by blast
      then obtain v where v: "u = c # v" "cs = v @ s'" by (cases u) auto
      show "s' \<in> set (plus_greedy p (c # cs))"
      proof (cases "v = []")
        case True
        with v \<open>p c\<close> show ?thesis by simp
      next
        case False
        with u v have "s' \<in> set (plus_greedy p cs)" using Cons.IH by auto
        with \<open>p c\<close> show ?thesis by simp
      qed
    qed
  qed
qed

lemma set_plus_lazy: "set (plus_lazy p s) = set (plus_greedy p s)"
  by (induction s) auto

lemma rep_exact_iff:
  "s' \<in> set (rep_exact k p s) \<longleftrightarrow> (\<exists>u. length u = k \<and> list_all p u \<and> s = u @ s')"
proof (induction k p s rule: rep_exact.induct)
  case (1 p s)
  then show ?case by auto
next
  case (2 k p)
  then show ?case by auto
next
  case (3 k p c cs)
  show ?case
  proof (cases "p c")
    case False
    then show ?thesis by (auto simp: Cons_eq_append_conv)
  next
    case True
    have "(\<exists>u. length u = Suc k \<and> list_all p u \<and> c # cs = u @ s')
        \<longleftrightarrow> (\<exists>v. length v = k \<and> list_all p v \<and> cs = v @ s')"
    proof
      assume "\<exists>u. length u = Suc k \<and> list_all p u \<and> c # cs = u @ s'"
      then obtain u where u: "length u = Suc k" "list_all p u" "c # cs = u @ s'" by blast
      then obtain v where "u = c # v" by (cases u) auto
      with u show "\<exists>v. length v = k \<and> list_all p v \<and> cs = v @ s'" by auto
    next
      assume "\<exists>v. length v = k \<and> list_all p v \<and> cs = v @ s'"
      then obtain v where "length v = k" "list_all p v" "cs = v @ s'" by blast
      with True have "length (c # v) = Suc k \<and> list_all p (c # v) \<and> c # cs = (c # v) @ s'"
        by simp
      then show "\<exists>u. length u = Suc k \<and> list_all p u \<and> c # cs = u @ s'" by blast
    qed
    with True 3 show ?thesis by simp
  qed
qed

lemma rx_run_iff:
  "(e, s') \<in> set (rx_run (length pre + length s) r s) \<longleftrightarrow> (\<exists>u. s = u @ s' \<and> rx_sem r pre u e)"
proof (induction r arbitrary: pre s e s')
  case Bol
  then show ?case by auto
next
  case (Atom p)
  then show ?case by (cases s) auto
next
  case (Opt r)
  then show ?case by auto
next
  case (Plus p)
  then show ?case by (auto simp: plus_greedy_iff)
next
  case (PlusLazy p)
  then show ?case by (auto simp: set_plus_lazy plus_greedy_iff)
next
  case (Rep k p)
  then show ?case by (auto simp: rep_exact_iff)
next
  case (Seq a b)
  show ?case
  proof
    assume "(e, s') \<in> set (rx_run (length pre + length s) (Seq a b) s)"
    then obtain e1 s1 e2 where 1: "(e1, s1) \<in> set (rx_run (length pre + length s) a s)"
      and 2: "(e2, s') \<in> set (rx_run (length pre + length s) b s1)" and e: "e = e1 @ e2"
      by auto
    from 1 Seq.IH(1) obtain u1 where u1: "s = u1 @ s1" "rx_sem a pre u1 e1" by blast
    then have "length pre + length s = length (pre @ u1) + length s1" by simp
    with 2 Seq.IH(2) [of e2 s' "pre @ u1" s1]
    obtain u2 where u2: "s1 = u2 @ s'" "rx_sem b (pre @ u1) u2 e2"
      by auto
    from u1 u2 e have "s = (u1 @ u2) @ s' \<and> rx_sem (Seq a b) pre (u1 @ u2) e" by auto
    then show "\<exists>u. s = u @ s' \<and> rx_sem (Seq a b) pre u e" by blast
  next
    assume "\<exists>u. s = u @ s' \<and> rx_sem (Seq a b) pre u e"
    then obtain u1 u2 e1 e2 where s: "s = (u1 @ u2) @ s'" and e: "e = e1 @ e2"
      and a: "rx_sem a pre u1 e1" and b: "rx_sem b (pre @ u1) u2 e2" by auto
    from s a Seq.IH(1) [of e1 "u2 @ s'" pre s]
    have 1: "(e1, u2 @ s') \<in> set (rx_run (length pre + length s) a s)" by auto
    have "length pre + length s = length (pre @ u1) + length (u2 @ s')" using s by simp
    with b Seq.IH(2) [of e2 s' "pre @ u1" "u2 @ s'"]
    have 2: "(e2, s') \<in> set (rx_run (length pre + length s) b (u2 @ s'))"
      by (auto simp: add.assoc)
    from 1 2 e show "(e, s') \<in> set (rx_run (length pre + length s) (Seq a b) s)"
      by force
  qed
next
  case (Named g r)
  show ?case
  proof
    assume "(e, s') \<in> set (rx_run (length pre + length s) (Named g r) s)"
    then obtain e0 where 0: "(e0, s') \<in> set (rx_run (length pre + length s) r s)"
      and e: "e = e0 @ [(g, take (length s - length s') s)]" by auto
    from 0 Named.IH obtain u where "s = u @ s'" "rx_sem r pre u e0" by blast
    with e have "s = u @ s' \<and> rx_sem (Named g r) pre u e" by simp
    then show "\<exists>u. s = u @ s' \<and> rx_sem (Named g r) pre u e" by blast
  next
    assume "\<exists>u. s = u @ s' \<and> rx_sem (Named g r) pre u e"
    then obtain u e0 where u: "s = u @ s'" "e = e0 @ [(g, u)]" "rx_sem r pre u e0" by auto
    with Named.IH [of e0 s' pre s] have "(e0, s') \<in> set (rx_run (length pre + length s) r s)"
      by blast
    with u show "(e, s') \<in> set (rx_run (length pre + length s) (Named g r) s)"
      by force
  qed
next
  case (Group r)
  then show ?case by simp
qed

lemma rx_run_iff0:
  "(e, s') \<in> set (rx_run (length s) r s) \<longleftrightarrow> (\<exists>u. s = u @ s' \<and> rx_sem r [] u e)"
  using rx_run_iff [of e s' "[]" s r] by simp

section \<open>The pattern and the grammar\<close>

lemma sem_SeqI:
  "rx_sem a pre u1 e1 \<Longrightarrow> rx_sem b (pre @ u1) u2 e2 \<Longrightarrow> rx_sem (Seq a b) pre (u1 @ u2) (e1 @ e2)"
  by auto

lemma sem_s_ws: "rx_sem s_ws pre u e \<longleftrightarrow> is_ws u \<and> e = []"
  by (simp add: s_ws_def is_ws_def)

lemma sem_lit: "rx_sem (Atom (lit a)) pre u e \<longleftrightarrow> u = [a] \<and> e = []"
  by (auto simp: lit_def)

lemma caret_not_word: "\<not> cls_w CHR ''^''"
  by (simp add: cls_w_def word_code_def)

lemma sem_p_sha: "rx_sem p_sha pre u e \<longleftrightarrow> is_sha u \<and> e = [(''sha'', u)]"
proof
  assume "rx_sem p_sha pre u e"
  then obtain u1 u2 where u: "u = u1 @ u2" "u1 = ''^'' \<or> u1 = []" "u2 \<noteq> []" "list_all cls_w u2"
    and e: "e = [(''sha'', u)]"
    by (auto simp: p_sha_def lit_def)
  from u have "is_sha u"
    by (cases u2) (auto simp: is_sha_def caret_not_word)
  with e show "is_sha u \<and> e = [(''sha'', u)]" by simp
next
  assume a: "is_sha u \<and> e = [(''sha'', u)]"
  from a obtain c cs where u: "u = c # cs" by (cases u) (auto simp: is_sha_def)
  have "rx_sem (Seq (Opt (Atom (lit CHR ''^''))) (Plus cls_w)) pre u []"
  proof (cases "c = CHR ''^''")
    case True
    with a u have "rx_sem (Opt (Atom (lit CHR ''^''))) pre ''^'' []"
      and "rx_sem (Plus cls_w) (pre @ ''^'') cs []"
      by (auto simp: is_sha_def lit_def)
    from sem_SeqI [OF this] u True show ?thesis by simp
  next
    case False
    with a u have "rx_sem (Opt (Atom (lit CHR ''^''))) pre [] []"
      and "rx_sem (Plus cls_w) (pre @ []) u []"
      by (auto simp: is_sha_def lit_def)
    from sem_SeqI [OF this] show ?thesis by simp
  qed
  with a show "rx_sem p_sha pre u e" by (simp add: p_sha_def)
qed

lemma sem_p_file:
  "rx_sem p_file pre u e \<longleftrightarrow> (\<exists>f w. u = f @ w \<and> is_file f \<and> is_ws w \<and> e = [(''file'', f)])"
  by (auto simp: p_file_def is_file_def is_ws_def)

lemma sem_p_author: "rx_sem p_author pre u e \<longleftrightarrow> is_author u \<and> e = [(''author'', u)]"
  by (auto simp: p_author_def is_author_def)

lemma sem_p_line: "rx_sem p_line pre u e \<longleftrightarrow> is_line_number u \<and> e = [(''line_number'', u)]"
  by (auto simp: p_line_def is_line_number_def)

lemma sem_Rep_Seq:
  "rx_sem (Seq (Rep k p) r) pre u e
     \<longleftrightarrow> (k \<le> length u \<and> list_all p (take k u) \<and> rx_sem r (pre @ take k u) (drop k u) e)"
proof
  assume "rx_sem (Seq (Rep k p) r) pre u e"
  then show "k \<le> length u \<and> list_all p (take k u) \<and> rx_sem r (pre @ take k u) (drop k u) e"
    by auto
next
  assume a: "k \<le> length u \<and> list_all p (take k u) \<and> rx_sem r (pre @ take k u) (drop k u) e"
  then have "u = take k u @ drop k u \<and> e = [] @ e \<and> rx_sem (Rep k p) pre (take k u) []
      \<and> rx_sem r (pre @ take k u) (drop k u) e"
    by simp
  then show "rx_sem (Seq (Rep k p) r) pre u e"
    unfolding rx_sem.simps(7) by blast
qed

lemma sem_Atom_Seq:
  "rx_sem (Seq (Atom p) r) pre u e
     \<longleftrightarrow> (1 \<le> length u \<and> list_all p (take 1 u) \<and> rx_sem r (pre @ take 1 u) (drop 1 u) e)"
proof
  assume "rx_sem (Seq (Atom p) r) pre u e"
  then show "1 \<le> length u \<and> list_all p (take 1 u) \<and> rx_sem r (pre @ take 1 u) (drop 1 u) e"
    by auto
next
  assume a: "1 \<le> length u \<and> list_all p (take 1 u) \<and> rx_sem r (pre @ take 1 u) (drop 1 u) e"
  then obtain c cs where u: "u = c # cs" by (cases u) auto
  with a have "u = [c] @ cs \<and> e = [] @ e \<and> rx_sem (Atom p) pre [c] [] \<and> rx_sem r (pre @ [c]) cs e"
    by simp
  then show "rx_sem (Seq (Atom p) r) pre u e"
    unfolding rx_sem.simps(7) by blast
qed

lemma sem_p_timezone: "rx_sem p_timezone pre u e \<longleftrightarrow> is_timezone u \<and> e = [(''timezone'', u)]"
  by (cases u) (auto simp: p_timezone_def is_timezone_def sem_Atom_Seq simp del: rx_sem.simps(7))

lemma sem_p_date: "rx_sem p_date pre u e \<longleftrightarrow> is_date u \<and> e = [(''date'', u)]"
  by (auto simp: p_date_def is_date_def sem_Rep_Seq sem_Atom_Seq simp del: rx_sem.simps(7))

lemma sem_p_time: "rx_sem p_time pre u e \<longleftrightarrow> is_time u \<and> e = [(''time'', u)]"
  by (auto simp: p_time_def is_time_def sem_Rep_Seq sem_Atom_Seq simp del: rx_sem.simps(7))

lemmas sem_parts = sem_s_ws sem_lit sem_p_sha sem_p_file sem_p_author sem_p_date sem_p_time
  sem_p_timezone sem_p_line

lemma sem_pattern_pieces:
  assumes "grammar_ok q"
  shows "rx_sem prepare_pattern [] (assemble q) (record_of q)"
proof -
  have "rx_sem prepare_pattern []
     ([] @ g_sha q @ g_ws1 q @ (g_file q @ g_ws2 q) @ ''('' @ g_author q @ g_ws3 q @ g_date q
       @ g_ws4 q @ g_time q @ g_ws5 q @ g_timezone q @ g_ws6 q @ g_line_number q @ '')'' @ '' '')
     ([] @ [(''sha'', g_sha q)] @ [] @ [(''file'', g_file q)] @ [] @ [(''author'', g_author q)] @ []
       @ [(''date'', g_date q)] @ [] @ [(''time'', g_time q)] @ [] @ [(''timezone'', g_timezone q)]
       @ [] @ [(''line_number'', g_line_number q)] @ [] @ [])"
    unfolding prepare_pattern_def cat.simps
    using assms
    by (intro sem_SeqI) (auto simp: sem_parts grammar_ok_def lit_def)
  then show ?thesis by (simp add: assemble_def record_of_def)
qed

lemma sem_pattern_sound:
  assumes "rx_sem prepare_pattern [] u e"
  shows "\<exists>q. grammar_ok q \<and> u = assemble q \<and> e = record_of q"
proof -
  from assms obtain sh w1 fl w2 au w3 dt w4 tm w5 tz w6 ln where
    ok: "is_sha sh" "is_ws w1" "is_file fl" "is_ws w2" "is_author au" "is_ws w3"
      "is_date dt" "is_ws w4" "is_time tm" "is_ws w5" "is_timezone tz" "is_ws w6"
      "is_line_number ln"
    and u: "u = sh @ w1 @ fl @ w2 @ ''('' @ au @ w3 @ dt @ w4 @ tm @ w5 @ tz @ w6 @ ln @ '') ''"
    and e: "e = [(''sha'', sh), (''file'', fl), (''author'', au), (''date'', dt),
      (''time'', tm), (''timezone'', tz), (''line_number'', ln)]"
    unfolding prepare_pattern_def cat.simps rx_sem.simps(7) sem_parts rx_sem.simps(1)
    by (elim exE conjE) simp
  let ?q = "\<lparr>g_sha = sh, g_ws1 = w1, g_file = fl, g_ws2 = w2, g_author = au,
    g_ws3 = w3, g_date = dt, g_ws4 = w4, g_time = tm, g_ws5 = w5, g_timezone = tz,
    g_ws6 = w6, g_line_number = ln\<rparr>"
  from ok u e have "grammar_ok ?q \<and> u = assemble ?q \<and> e = record_of ?q"
    by (simp add: grammar_ok_def assemble_def record_of_def)
  then show ?thesis by blast
qed

lemma re_match_Some:
  assumes "re_match prepare_pattern s = Some e"
  shows "\<exists>q rest. grammar_ok q \<and> s = assemble q @ rest \<and> e = record_of q"
proof -
  from assms obtain s' where "(e, s') \<in> set (rx_run (length s) prepare_pattern s)"
    by (auto simp: re_match_def split: list.splits)
  then obtain u where "s = u @ s'" "rx_sem prepare_pattern [] u e"
    by (auto simp: rx_run_iff0)
  with sem_pattern_sound show ?thesis by blast
qed

lemma re_match_None:
  assumes "re_match prepare_pattern (assemble q @ rest) = None"
  shows "\<not> grammar_ok q"
proof
  assume "grammar_ok q"
  then have "rx_sem prepare_pattern [] (assemble q) (record_of q)" by (rule sem_pattern_pieces)
  then have "(record_of q, rest)
      \<in> set (rx_run (length (assemble q @ rest)) prepare_pattern (assemble q @ rest))"
    unfolding rx_run_iff0 by blast
  with assms show False by (auto simp: re_match_def split: list.splits)
qed

lemma word_not_space: "cls_w c \<Longrightarrow> \<not> cls_s c"
  by (auto simp: cls_w_def cls_s_def word_code_def space_code_def)

lemma caret_not_space: "\<not> cls_s CHR ''^''"
  by (simp add: cls_s_def space_code_def)

lemma is_sha_no_space: "is_sha u \<Longrightarrow> list_all (\<lambda>c. \<not> cls_s c) u"
  by (cases u) (auto simp: is_sha_def list_all_iff word_not_space caret_not_space split: if_splits)

lemma sha_is_first_token:
  assumes "is_sha u" and "is_ws w"
  shows "takeWhile (\<lambda>c. \<not> cls_s c) (u @ w @ t) = u"
proof -
  from assms(2) obtain c cs where w: "w = c # cs" "cls_s c" by (cases w) (auto simp: is_ws_def)
  from is_sha_no_space [OF assms(1)] have "\<forall>x\<in>set u. \<not> cls_s x" by (simp add: list_all_iff)
  with w show ?thesis by (simp add: takeWhile_append2)
qed

lemma sha_unique:
  assumes "grammar_ok p" and "grammar_ok q" and "assemble p @ r = assemble q @ r'"
  shows "g_sha q = g_sha p"
proof -
  have "\<And>x t. grammar_ok x \<Longrightarrow> takeWhile (\<lambda>c. \<not> cls_s c) (assemble x @ t) = g_sha x"
    using sha_is_first_token by (simp add: grammar_ok_def assemble_def)
  with assms show ?thesis by metis
qed

section \<open>Text after the match does not change the order of the attempts\<close>

lemma plus_greedy_shorter: "s' \<in> set (plus_greedy p s) \<Longrightarrow> length s' < length s"
  by (auto simp: plus_greedy_iff)

lemma rep_exact_shorter: "s' \<in> set (rep_exact k p s) \<Longrightarrow> length s' + k = length s"
  by (auto simp: rep_exact_iff)

lemma rx_run_shorter: "(e, s') \<in> set (rx_run n r s) \<Longrightarrow> length s' \<le> length s"
proof (induction r arbitrary: e s' s)
  case (Atom p)
  then show ?case by (cases s) (auto split: if_splits)
next
  case (Opt r)
  then show ?case by auto
next
  case (Plus p)
  then show ?case by (auto dest: plus_greedy_shorter)
next
  case (PlusLazy p)
  then have "s' \<in> set (plus_greedy p s)" by (auto simp: set_plus_lazy [symmetric])
  then show ?case by (auto dest: plus_greedy_shorter)
next
  case (Rep k p)
  then show ?case by (auto dest: rep_exact_shorter)
next
  case (Seq a b)
  from Seq.prems obtain e1 s1 e2 where "(e1, s1) \<in> set (rx_run n a s)"
    and "(e2, s') \<in> set (rx_run n b s1)" by auto
  with Seq.IH(1) [of e1 s1 s] Seq.IH(2) [of e2 s' s1] show ?case by simp
next
  case (Named g r)
  then show ?case by auto
qed (auto split: if_splits)

lemma filter_none: "(\<And>x. x \<in> set xs \<Longrightarrow> \<not> P x) \<Longrightarrow> filter P xs = []"
  by (induction xs) auto

lemma plus_greedy_trailing:
  "filter (\<lambda>s'. length t \<le> length s') (plus_greedy p (s @ t)) = map (\<lambda>s'. s' @ t) (plus_greedy p s)"
proof (induction s)
  case Nil
  have "filter (\<lambda>s'. length t \<le> length s') (plus_greedy p t) = []"
    by (rule filter_none) (auto dest: plus_greedy_shorter)
  then show ?case by simp
next
  case (Cons c cs)
  then show ?case by simp
qed

lemma plus_lazy_trailing:
  "filter (\<lambda>s'. length t \<le> length s') (plus_lazy p (s @ t)) = map (\<lambda>s'. s' @ t) (plus_lazy p s)"
proof (induction s)
  case Nil
  have "filter (\<lambda>s'. length t \<le> length s') (plus_lazy p t) = []"
    by (rule filter_none) (auto simp: set_plus_lazy dest: plus_greedy_shorter)
  then show ?case by simp
next
  case (Cons c cs)
  then show ?case by simp
qed

lemma rep_exact_trailing:
  "filter (\<lambda>s'. length t \<le> length s') (rep_exact k p (s @ t)) = map (\<lambda>s'. s' @ t) (rep_exact k p s)"
proof (induction k p s rule: rep_exact.induct)
  case (1 p s)
  then show ?case by simp
next
  case (2 k p)
  have "filter (\<lambda>s'. length t \<le> length s') (rep_exact (Suc k) p t) = []"
    by (rule filter_none) (auto dest: rep_exact_shorter)
  then show ?case by simp
next
  case (3 k p c cs)
  then show ?case by simp
qed

lemma filter_Pair_map:
  "filter (\<lambda>(e, s'). Q s') (map (Pair a) xs) = map (Pair a) (filter Q xs)"
  by (induction xs) auto

lemma concat_map_skip:
  "(\<And>x. x \<in> set xs \<Longrightarrow> \<not> P x \<Longrightarrow> G x = []) \<Longrightarrow> concat (map G xs) = concat (map G (filter P xs))"
  by (induction xs) auto

lemma rx_run_trailing:
  "filter (\<lambda>(e, s'). length t \<le> length s') (rx_run (n + length t) r (s @ t))
     = map (\<lambda>(e, s'). (e, s' @ t)) (rx_run n r s)"
proof (induction r arbitrary: s)
  case Bol
  then show ?case by simp
next
  case (Atom p)
  show ?case
  proof (cases s)
    case Nil
    then show ?thesis by (cases t) auto
  next
    case (Cons c cs)
    then show ?thesis by simp
  qed
next
  case (Opt r)
  then show ?case by simp
next
  case (Plus p)
  show ?case
    by (simp add: filter_Pair_map plus_greedy_trailing)
next
  case (PlusLazy p)
  show ?case
    by (simp add: filter_Pair_map plus_lazy_trailing)
next
  case (Rep k p)
  show ?case
    by (simp add: filter_Pair_map rep_exact_trailing)
next
  case (Seq a b)
  let ?N = "n + length t"
  let ?P = "\<lambda>(e :: captures, s' :: string). length t \<le> length s'"
  let ?H = "\<lambda>(e :: captures, s' :: string). (e, s' @ t)"
  let ?J = "\<lambda>e1. \<lambda>(e2 :: captures, s2 :: string). (e1 @ e2, s2)"
  let ?G = "\<lambda>(e1, s1). filter ?P (map (?J e1) (rx_run ?N b s1))"
  have skip: "?G x = []" if "x \<in> set (rx_run ?N a (s @ t))" and "\<not> ?P x" for x
  proof -
    obtain e1 s1 where x: "x = (e1, s1)" by (cases x)
    with that have short: "length s1 < length t" by simp
    have "filter ?P (map (?J e1) (rx_run ?N b s1)) = []"
    proof (rule filter_none)
      fix y assume "y \<in> set (map (?J e1) (rx_run ?N b s1))"
      then obtain e2 s2 where "y = (e1 @ e2, s2)" "(e2, s2) \<in> set (rx_run ?N b s1)" by auto
      with rx_run_shorter [of e2 s2 ?N b s1] short show "\<not> ?P y" by simp
    qed
    with x show ?thesis by simp
  qed
  have step: "?G (?H x) = map ?H ((\<lambda>(e1, s1). map (?J e1) (rx_run n b s1)) x)" for x
  proof -
    obtain e1 s1 where x: "x = (e1, s1)" by (cases x)
    have "filter ?P (map (?J e1) (rx_run ?N b (s1 @ t)))
        = map (?J e1) (filter ?P (rx_run ?N b (s1 @ t)))"
      by (induction "rx_run ?N b (s1 @ t)") (auto simp: filter_map comp_def case_prod_unfold)
    also have "\<dots> = map (?J e1) (map ?H (rx_run n b s1))"
      by (simp only: Seq.IH(2))
    also have "\<dots> = map ?H (map (?J e1) (rx_run n b s1))"
      by (simp add: case_prod_unfold)
    finally show ?thesis using x by simp
  qed
  have "filter ?P (rx_run ?N (Seq a b) (s @ t)) = concat (map ?G (rx_run ?N a (s @ t)))"
    by (simp add: filter_concat comp_def case_prod_unfold)
  also have "\<dots> = concat (map ?G (filter ?P (rx_run ?N a (s @ t))))"
    by (rule concat_map_skip) (rule skip)
  also have "\<dots> = concat (map ?G (map ?H (rx_run n a s)))"
    by (simp only: Seq.IH(1))
  also have "\<dots> = concat (map (\<lambda>x. map ?H ((\<lambda>(e1, s1). map (?J e1) (rx_run n b s1)) x)) (rx_run n a s))"
    by (simp only: map_map comp_def step)
  also have "\<dots> = map ?H (rx_run n (Seq a b) s)"
    by (simp add: map_concat comp_def)
  finally show ?case .
next
  case (Named g r)
  let ?P = "\<lambda>(e :: captures, s' :: string). length t \<le> length s'"
  let ?H = "\<lambda>(e :: captures, s' :: string). (e, s' @ t)"
  let ?K = "\<lambda>w. \<lambda>(e :: captures, s' :: string). (e @ [(g, take (length w - length s') w)], s')"
  have "filter ?P (map (?K (s @ t)) (rx_run (n + length t) r (s @ t)))
      = map (?K (s @ t)) (filter ?P (rx_run (n + length t) r (s @ t)))"
    by (simp add: filter_map comp_def case_prod_unfold)
  also have "\<dots> = map (?K (s @ t)) (map ?H (rx_run n r s))"
    by (simp only: Named.IH)
  also have "\<dots> = map ?H (map (?K s) (rx_run n r s))"
  proof -
    have "?K (s @ t) (?H x) = ?H (?K s x)" if "x \<in> set (rx_run n r s)" for x
    proof -
      obtain e s' where x: "x = (e, s')" by (cases x)
      with that rx_run_shorter [of e s' n r s] have "length s' \<le> length s" by simp
      with x show ?thesis by simp
    qed
    then show ?thesis by simp
  qed
  finally show ?case by simp
next
  case (Group r)
  then show ?case by simp
qed

section \<open>The record of a line that starts with a match\<close>

lemma has_close_append: "has_close (a @ '') '' @ b)"
proof (induction a)
  case Nil
  then show ?case by simp
next
  case (Cons c a)
  then show ?case by (cases "a @ '') '' @ b") auto
qed

lemma close_in_tail:
  assumes "x @ '') '' @ v = y @ '') ''" and "v \<noteq> []"
  shows "\<exists>w. v = w @ '') ''"
proof -
  from assms(2) obtain w c where v: "v = w @ [c]" by (cases v rule: rev_cases) auto
  with assms(1) have "(x @ '') '' @ w) @ [c] = (y @ '')'') @ '' ''" by simp
  then have c: "c = CHR '' ''" and 1: "x @ '') '' @ w = y @ '')''" by auto
  show ?thesis
  proof (cases w rule: rev_cases)
    case Nil
    with 1 have "(x @ '')'') @ '' '' = y @ '')''" by simp
    then have "CHR '' '' = CHR '')''" by (metis append1_eq_conv)
    then show ?thesis by simp
  next
    case (snoc w' d)
    with 1 have "(x @ '') '' @ w') @ [d] = y @ '')''" by simp
    then have "d = CHR '')''" by auto
    with snoc v c show ?thesis by simp
  qed
qed

lemma assemble_ends: "\<exists>x. assemble q = x @ '') ''"
proof -
  have "assemble q = (g_sha q @ g_ws1 q @ g_file q @ g_ws2 q @ ''('' @ g_author q @ g_ws3 q
     @ g_date q @ g_ws4 q @ g_time q @ g_ws5 q @ g_timezone q @ g_ws6 q @ g_line_number q) @ '') ''"
    by (simp add: assemble_def)
  then show ?thesis by blast
qed

lemma match_within_prefix:
  assumes "\<not> has_close rest" and "assemble p @ rest = assemble q @ s'"
  shows "length rest \<le> length s'"
proof (rule ccontr)
  assume "\<not> length rest \<le> length s'"
  then have "length (assemble p) < length (assemble q)"
    using arg_cong [OF assms(2), of length] by simp
  with assms(2) obtain v where v: "assemble q = assemble p @ v" "v \<noteq> []" "rest = v @ s'"
    by (fastforce simp: append_eq_append_conv2)
  obtain x where x: "assemble p = x @ '') ''" using assemble_ends by blast
  obtain y where y: "assemble q = y @ '') ''" using assemble_ends by blast
  from v x y have "x @ '') '' @ v = y @ '') ''" by simp
  from close_in_tail [OF this v(2)] obtain w where "v = w @ '') ''" by blast
  with v have "rest = w @ '') '' @ s'" by simp
  then have "has_close rest" using has_close_append by simp
  with assms(1) show False by simp
qed

lemma rx_run_pattern_trailing:
  assumes "\<not> has_close rest"
  shows "rx_run (length (assemble p @ rest)) prepare_pattern (assemble p @ rest)
     = map (\<lambda>(e, s'). (e, s' @ rest)) (rx_run (length (assemble p)) prepare_pattern (assemble p))"
proof -
  let ?xs = "rx_run (length (assemble p @ rest)) prepare_pattern (assemble p @ rest)"
  have "filter (\<lambda>(e, s'). length rest \<le> length s') ?xs = ?xs"
  proof -
    have "length rest \<le> length s'" if "(e, s') \<in> set ?xs" for e s'
    proof -
      from that obtain u where "assemble p @ rest = u @ s'" "rx_sem prepare_pattern [] u e"
        unfolding rx_run_iff0 by blast
      with sem_pattern_sound obtain q where "assemble p @ rest = assemble q @ s'" by blast
      with assms show ?thesis by (rule match_within_prefix)
    qed
    then show ?thesis by (auto simp: filter_id_conv)
  qed
  with rx_run_trailing [of rest "length (assemble p)" prepare_pattern "assemble p"]
  show ?thesis by simp
qed

lemma re_match_trailing:
  assumes "\<not> has_close rest"
  shows "re_match prepare_pattern (assemble p @ rest) = re_match prepare_pattern (assemble p)"
  unfolding re_match_def rx_run_pattern_trailing [OF assms]
  by (cases "rx_run (length (assemble p)) prepare_pattern (assemble p)") auto

lemma re_match_prefix:
  assumes "grammar_ok p"
  shows "\<exists>q rest'. grammar_ok q \<and> assemble p @ rest = assemble q @ rest' \<and> g_sha q = g_sha p
     \<and> re_match prepare_pattern (assemble p @ rest) = Some (record_of q)"
proof (cases "re_match prepare_pattern (assemble p @ rest)")
  case None
  with re_match_None assms show ?thesis by blast
next
  case (Some e)
  from re_match_Some [OF Some] obtain q rest' where q: "grammar_ok q"
    "assemble p @ rest = assemble q @ rest'" "e = record_of q" by blast
  from sha_unique [OF assms q(1) q(2)] have "g_sha q = g_sha p" .
  with q Some show ?thesis by blast
qed

lemma parse_blame_pattern:
  assumes "pat = None \<or> pat = Some prepare_pattern"
  shows "parse_blame pat l =
     (case re_match prepare_pattern l of None \<Rightarrow> Inl AttributeError | Some m \<Rightarrow> Inr m,
      Some prepare_pattern)"
  using assms by (auto simp: parse_blame_def groupdict_def split: option.splits)

text \<open>A line that does not start with text the grammar accepts raises.\<close>

lemma unmatched_line_raises:
  assumes "pat = None \<or> pat = Some prepare_pattern"
    and "\<nexists>q rest. grammar_ok q \<and> l = assemble q @ rest"
  shows "fst (parse_blame pat l) = Inl AttributeError"
proof (cases "re_match prepare_pattern l")
  case None
  then show ?thesis by (simp add: parse_blame_pattern [OF assms(1)])
next
  case (Some e)
  from re_match_Some [OF Some] assms(2) show ?thesis by blast
qed

lemma parse_lines_raises:
  assumes "fst (parse_blame pat l) = Inl e"
  shows "fst (parse_lines pat (l # ls)) = Inl e"
  using assms by (cases "parse_blame pat l") (auto split: sum.splits)

text \<open>
  Whenever a line starts with text that the grammar accepts, \<open>parse_blame\<close> returns a
  record, and the fields of the record are the pieces of one cut of the line. The sha
  piece is the same in every cut of a line, so that a leading \<open>^\<close> stays in the \<open>sha\<close>
  field.
\<close>

lemma parse_blame_returns_cut:
  assumes "pat = None \<or> pat = Some prepare_pattern" and "grammar_ok p"
  shows "\<exists>q rest'. grammar_ok q \<and> assemble p @ rest = assemble q @ rest' \<and> g_sha q = g_sha p
     \<and> fst (parse_blame pat (assemble p @ rest)) = Inr (record_of q)"
proof -
  from re_match_prefix [OF assms(2), of rest] obtain q rest' where "grammar_ok q"
    "assemble p @ rest = assemble q @ rest'" "g_sha q = g_sha p"
    "re_match prepare_pattern (assemble p @ rest) = Some (record_of q)" by blast
  moreover from this have "fst (parse_blame pat (assemble p @ rest)) = Inr (record_of q)"
    by (simp add: parse_blame_pattern [OF assms(1)])
  ultimately show ?thesis by blast
qed

text \<open>
  The match is anchored at the start of the line only: a line that starts with text the
  grammar accepts yields a record whatever follows, and its \<open>sha\<close> field does not depend
  on what follows. Text after the closing \<open>") "\<close> that contains no further \<open>") "\<close> has
  no effect on the record.
\<close>

lemma trailing_text_without_close:
  assumes "pat = None \<or> pat = Some prepare_pattern" and "grammar_ok p"
  shows "(\<exists>r. fst (parse_blame pat (assemble p @ rest)) = Inr r
            \<and> getitem r ''sha'' = Inr (g_sha p))
       \<and> (\<not> has_close rest \<longrightarrow>
            fst (parse_blame pat (assemble p @ rest)) = fst (parse_blame pat (assemble p)))"
proof
  from re_match_prefix [OF assms(2), of rest] obtain q where "g_sha q = g_sha p"
    "re_match prepare_pattern (assemble p @ rest) = Some (record_of q)" by blast
  then have "fst (parse_blame pat (assemble p @ rest)) = Inr (record_of q)
      \<and> getitem (record_of q) ''sha'' = Inr (g_sha p)"
    by (simp add: parse_blame_pattern [OF assms(1)] getitem_def record_of_def)
  then show "\<exists>r. fst (parse_blame pat (assemble p @ rest)) = Inr r
      \<and> getitem r ''sha'' = Inr (g_sha p)" by blast
next
  show "\<not> has_close rest \<longrightarrow>
      fst (parse_blame pat (assemble p @ rest)) = fst (parse_blame pat (assemble p))"
    by (simp add: parse_blame_pattern [OF assms(1)] re_match_trailing)
qed

section \<open>\<open>int\<close> on a line number\<close>

lemma digit_not_int_space: "cls_d c \<Longrightarrow> \<not> cls_int_space c"
  by (auto simp: cls_d_def cls_int_space_def digit_code_def int_space_code_def)

lemma digit_not_sign: "cls_d c \<Longrightarrow> c \<noteq> CHR ''+'' \<and> c \<noteq> CHR ''-''"
  by (auto simp: cls_d_def digit_code_def)

lemma dropWhile_keep: "xs = [] \<or> \<not> P (hd xs) \<Longrightarrow> dropWhile P xs = xs"
  by (cases xs) auto

lemma strip_digits:
  assumes "list_all cls_d u"
  shows "strip u = u"
proof (cases "u = []")
  case True
  then show ?thesis by (simp add: strip_def)
next
  case False
  with assms have "\<not> cls_int_space (hd u)" and "\<not> cls_int_space (hd (rev u))"
    by (auto simp: list_all_iff hd_rev digit_not_int_space)
  then show ?thesis by (simp add: strip_def dropWhile_keep)
qed

lemma digits_ok_digits: "list_all cls_d u \<Longrightarrow> digits_ok b u = (b \<or> u \<noteq> [])"
  by (induction u arbitrary: b) auto

lemma digits_value_nonneg: "0 \<le> acc \<Longrightarrow> list_all cls_d u \<Longrightarrow> 0 \<le> digits_value acc u"
proof (induction u arbitrary: acc)
  case Nil
  then show ?case by simp
next
  case (Cons c u)
  from Cons.prems have "48 \<le> (of_char c :: nat)" by (simp add: cls_d_def digit_code_def)
  then have "0 \<le> 10 * acc + (int (of_char c) - 48)" using Cons.prems(1) by simp
  with Cons show ?case by simp
qed

lemma py_int_line_number:
  assumes "is_line_number u"
  shows "py_int u = Inr (digits_value 0 u)"
proof -
  from assms have d: "list_all cls_d u" and ne: "u \<noteq> []" by (simp_all add: is_line_number_def)
  from d ne have "cls_d (hd u)" by (cases u) auto
  then have "hd u \<noteq> CHR ''+''" "hd u \<noteq> CHR ''-''" using digit_not_sign by blast+
  moreover from d have "filter cls_d u = u" by (simp add: list_all_iff)
  ultimately show ?thesis
    using d ne by (simp add: py_int_def strip_digits digits_ok_digits)
qed


lemma digit_char_code: "d < 10 \<Longrightarrow> (of_char (digit_char d) :: nat) = 48 + d"
  by (simp add: digit_char_def)

lemma digit_char_digit: "d < 10 \<Longrightarrow> cls_d (digit_char d)"
  by (simp add: cls_d_def digit_code_def digit_char_code)

lemma decimal_digits: "list_all cls_d (decimal n) \<and> decimal n \<noteq> []"
proof (induction n rule: decimal.induct)
  case (1 n)
  show ?case
  proof (cases "n < 10")
    case True
    then show ?thesis by (simp add: decimal.simps [of n] digit_char_digit)
  next
    case False
    with 1 show ?thesis by (simp add: decimal.simps [of n] digit_char_digit)
  qed
qed



lemma zero_digit: "cls_d (CHR ''0'')"
  by (simp add: cls_d_def digit_code_def)

lemma digit_char_0: "digit_char 0 = CHR ''0''"
  by code_simp

lemma numeral_is_line_number: "is_line_number (replicate z (CHR ''0'') @ decimal n)"
  using decimal_digits [of n] by (auto simp: is_line_number_def list_all_iff zero_digit)

lemma line_number_is_numeral:
  assumes "is_line_number u"
  shows "\<exists>z n. u = replicate z (CHR ''0'') @ decimal n"
proof -
  have "list_all cls_d u \<Longrightarrow> u \<noteq> [] \<Longrightarrow> \<exists>z n. u = replicate z (CHR ''0'') @ decimal n"
  proof (induction u rule: rev_induct)
    case Nil
    then show ?case by simp
  next
    case (snoc c xs)
    from snoc.prems have c: "cls_d c" and xs: "list_all cls_d xs" by simp_all
    define d where "d = (of_char c :: nat) - 48"
    from c have d: "d < 10" and cd: "c = digit_char d"
      by (auto simp: d_def cls_d_def digit_code_def digit_char_def)
    show ?case
    proof (cases "xs = []")
      case True
      with d cd have "xs @ [c] = replicate 0 (CHR ''0'') @ decimal d"
        by (simp add: decimal.simps [of d])
      then show ?thesis by blast
    next
      case False
      with snoc.IH xs obtain z n where zn: "xs = replicate z (CHR ''0'') @ decimal n" by blast
      show ?thesis
      proof (cases "n = 0")
        case True
        have "decimal 0 = [CHR ''0'']" by (simp add: decimal.simps [of 0] digit_char_0)
        with True zn have "xs = replicate (Suc z) (CHR ''0'')"
          by (simp add: replicate_append_same)
        with d cd have "xs @ [c] = replicate (Suc z) (CHR ''0'') @ decimal d"
          by (simp add: decimal.simps [of d])
        then show ?thesis by blast
      next
        case False
        with d have "decimal (10 * n + d) = decimal n @ [digit_char d]"
          by (simp add: decimal.simps [of "10 * n + d"])
        with zn cd have "xs @ [c] = replicate z (CHR ''0'') @ decimal (10 * n + d)" by simp
        then show ?thesis by blast
      qed
    qed
  qed
  with assms show ?thesis by (simp add: is_line_number_def)
qed

section \<open>The phantom of a parsed record\<close>

lemma make_phantom_record:
  assumes "grammar_ok q"
  shows "make_phantom m (record_of q) =
     Inr \<lparr>ph_region = LineRegion (digits_value 0 (g_line_number q) - 1), ph_sha = g_sha q,
          ph_user = g_author q @ str_mul ''&nbsp;'' (m - int (length (g_author q))),
          ph_date = g_date q, ph_time = g_time q\<rparr>"
proof -
  from assms have "py_int (g_line_number q) = Inr (digits_value 0 (g_line_number q))"
    by (simp add: grammar_ok_def py_int_line_number)
  then show ?thesis
    by (simp add: make_phantom_def record_of_def getitem_def bind_exc_def get_line_point_def)
qed

lemma make_phantoms_records:
  assumes "list_all grammar_ok qs"
  shows "make_phantoms m (map record_of qs) =
     Inr (map (\<lambda>q. \<lparr>ph_region = LineRegion (digits_value 0 (g_line_number q) - 1),
            ph_sha = g_sha q,
            ph_user = g_author q @ str_mul ''&nbsp;'' (m - int (length (g_author q))),
            ph_date = g_date q, ph_time = g_time q\<rparr>) qs)"
  using assms by (induction qs) (simp_all add: make_phantom_record bind_exc_def)

lemma author_lens_records:
  "author_lens (map record_of qs) = Inr (map (\<lambda>q. int (length (g_author q))) qs)"
  by (induction qs) (simp_all add: bind_exc_def getitem_def record_of_def)

lemma py_max_Max: "xs \<noteq> [] \<Longrightarrow> py_max xs = Inr (Max (set xs))"
proof (cases xs)
  case Nil
  assume "xs \<noteq> []"
  with Nil show ?thesis by simp
next
  case (Cons y ys)
  have "fold max ys y = Max (set (y # ys))" by (rule Max.set_eq_fold [symmetric])
  with Cons show ?thesis by (simp add: py_max_def)
qed

lemma max_author_len_records:
  assumes "qs \<noteq> []"
  shows "max_author_len (map record_of qs) = Inr (Max ((\<lambda>q. int (length (g_author q))) ` set qs))"
  using assms by (simp add: max_author_len_def author_lens_records bind_exc_def py_max_Max)




section \<open>The command on output that parses\<close>

text \<open>
  When every line of the output starts with text the grammar accepts, \<open>run\<close> shows the
  phantoms that the loop builds from the records, sets the flag and moves the viewport to
  the left edge.
\<close>

lemma parse_blame_record:
  assumes "pat = None \<or> pat = Some prepare_pattern" and "starts_with_match l"
  shows "\<exists>q. grammar_ok q \<and> parse_blame pat l = (Inr (record_of q), Some prepare_pattern)"
proof -
  from assms(2) obtain p rest where "grammar_ok p" "l = assemble p @ rest"
    by (auto simp: starts_with_match_def)
  with re_match_prefix [of p rest] obtain q where "grammar_ok q"
    "re_match prepare_pattern l = Some (record_of q)" by auto
  then show ?thesis by (auto simp: parse_blame_pattern [OF assms(1)])
qed

lemma parse_lines_records:
  assumes "pat = None \<or> pat = Some prepare_pattern" and "list_all starts_with_match ls"
  shows "\<exists>qs. list_all grammar_ok qs \<and> length qs = length ls
     \<and> parse_lines pat ls = (Inr (map record_of qs), if ls = [] then pat else Some prepare_pattern)"
  using assms
proof (induction ls arbitrary: pat)
  case Nil
  then show ?case by simp
next
  case (Cons l ls)
  from Cons.prems parse_blame_record [of pat l] obtain q where q: "grammar_ok q"
    "parse_blame pat l = (Inr (record_of q), Some prepare_pattern)" by auto
  from Cons.IH [of "Some prepare_pattern"] Cons.prems obtain qs where qs: "list_all grammar_ok qs"
    "length qs = length ls"
    "parse_lines (Some prepare_pattern) ls
       = (Inr (map record_of qs), if ls = [] then Some prepare_pattern else Some prepare_pattern)"
    by auto
  from q qs have "list_all grammar_ok (q # qs) \<and> length (q # qs) = length (l # ls)
     \<and> parse_lines pat (l # ls) = (Inr (map record_of (q # qs)), Some prepare_pattern)"
    by simp
  then show ?case by (intro exI [of _ "q # qs"]) simp
qed

lemma truthy_records: "filter truthy (map record_of qs) = map record_of qs"
  by (induction qs) (simp_all add: truthy_def record_of_def)

lemma run_shows_phantoms:
  assumes "suitable v"
    and "\<not> settings_get (settings v) SETTING_PHANTOM_ALL_DISPLAYED False"
    and "pattern v = None \<or> pattern v = Some prepare_pattern"
    and "git en (blame_invocation en (file_name v)) = Inr out"
    and "splitlines out \<noteq> []"
    and "list_all starts_with_match (splitlines out)"
  shows "\<exists>qs m ps. list_all grammar_ok qs \<and> length qs = length (splitlines out)
     \<and> max_author_len (map record_of qs) = Inr m
     \<and> make_phantoms m (map record_of qs) = Inr ps
     \<and> show_all_run en v =
         (v\<lparr>phantoms := (phantoms v)(PHANTOM_KEY_ALL := ps),
            settings := (settings v)(SETTING_PHANTOM_ALL_DISPLAYED \<mapsto> True),
            viewport_position := (0, snd (viewport_position v)),
            pattern := Some prepare_pattern,
            invocations := invocations v @ [blame_invocation en (file_name v)]\<rparr>, None)"
proof -
  from parse_lines_records [OF assms(3) assms(6)] assms(5) obtain qs where
    qs: "list_all grammar_ok qs" "length qs = length (splitlines out)"
    "parse_lines (pattern v) (splitlines out) = (Inr (map record_of qs), Some prepare_pattern)"
    by auto
  with assms(5) have ne: "qs \<noteq> []" by auto
  let ?m = "Max ((\<lambda>q. int (length (g_author q))) ` set qs)"
  from max_author_len_records [OF ne] have m: "max_author_len (map record_of qs) = Inr ?m" .
  from make_phantoms_records [OF qs(1), of ?m] obtain ps where
    ps: "make_phantoms ?m (map record_of qs) = Inr ps" by blast
  from ne have ne': "map record_of qs \<noteq> []" by simp
  have "show_all_run en v =
         (v\<lparr>phantoms := (phantoms v)(PHANTOM_KEY_ALL := ps),
            settings := (settings v)(SETTING_PHANTOM_ALL_DISPLAYED \<mapsto> True),
            viewport_position := (0, snd (viewport_position v)),
            pattern := Some prepare_pattern,
            invocations := invocations v @ [blame_invocation en (file_name v)]\<rparr>, None)"
    using assms(1,2,4) qs(3) m ps ne'
    by (simp add: show_all_run_def erase_phantoms_def get_blame_def Let_def truthy_records
        bind_exc_def phantom_set_update_def settings_set_def)
  with qs m ps show ?thesis by blast
qed

section \<open>The command line\<close>

lemma cut_last_component:
  assumes "list_all (\<lambda>c. \<not> P c) b" and "h = [] \<or> P (last h)"
  shows "takeWhile (\<lambda>c. \<not> P c) (rev (h @ b)) = rev b"
    and "dropWhile (\<lambda>c. \<not> P c) (rev (h @ b)) = rev h"
proof -
  from assms(1) have b: "\<forall>x\<in>set (rev b). \<not> P x" by (simp add: list_all_iff)
  from assms(2) have h: "takeWhile (\<lambda>c. \<not> P c) (rev h) = []"
    by (cases h rule: rev_cases) auto
  from b h takeWhile_append2 [of "rev b" "\<lambda>c. \<not> P c" "rev h"]
  show "takeWhile (\<lambda>c. \<not> P c) (rev (h @ b)) = rev b"
    by simp
  from assms(2) have "dropWhile (\<lambda>c. \<not> P c) (rev h) = rev h"
    by (cases h rule: rev_cases) auto
  with b dropWhile_append2 [of "rev b" "\<lambda>c. \<not> P c" "rev h"]
  show "dropWhile (\<lambda>c. \<not> P c) (rev (h @ b)) = rev h"
    by simp
qed

lemma strip_separators:
  assumes "list_all P ss" and "d = [] \<or> \<not> P (last d)"
  shows "dropWhile P (rev (d @ ss)) = rev d"
proof -
  from assms(1) have "\<forall>x\<in>set (rev ss). P x" by (simp add: list_all_iff)
  moreover from assms(2) have "dropWhile P (rev d) = rev d"
    by (cases d rule: rev_cases) auto
  ultimately show ?thesis
    using dropWhile_append2 [of "rev ss" P "rev d"] by simp
qed

lemma head_ends_in_separator:
  assumes "list_all P ss" and "d = [] \<or> ss \<noteq> []"
  shows "d @ ss = [] \<or> P (last (d @ ss))"
  using assms by (cases ss rule: rev_cases) auto

lemma is_sep_Nt: "is_sep Nt = nt_sep"
  by (rule ext) (simp add: is_sep_def nt_sep_def)

lemma is_sep_Posix: "is_sep Posix = (\<lambda>c. c = CHR ''/'')"
  by (rule ext) (simp add: is_sep_def)

lemma posix_split:
  assumes "splits_as Posix p drv d ss b"
  shows "posix_basename p = b \<and> posix_dirname p = drv @ (if d = [] then ss else d)"
proof -
  let ?P = "\<lambda>c. c = CHR ''/''"
  from assms have p: "p = (d @ ss) @ b" and drv: "drv = []" and ss: "list_all ?P ss"
    and b: "list_all (\<lambda>c. \<not> ?P c) b" and d: "d = [] \<or> \<not> ?P (last d)" and e: "d = [] \<or> ss \<noteq> []"
    by (simp_all add: splits_as_def drive_shape_def is_sep_Posix)
  from head_ends_in_separator [of ?P, OF ss e] have h: "d @ ss = [] \<or> ?P (last (d @ ss))" .
  from cut_last_component [of ?P, OF b h] p
  have t: "takeWhile (\<lambda>c. c \<noteq> CHR ''/'') (rev p) = rev b"
    and hd: "dropWhile (\<lambda>c. c \<noteq> CHR ''/'') (rev p) = rev (d @ ss)" by simp_all
  from strip_separators [of ?P, OF ss d] have r: "dropWhile ?P (rev (d @ ss)) = rev d" .
  have "posix_dirname p = (if d = [] then ss else d)"
  proof (cases "d = []")
    case True
    with ss show ?thesis by (simp add: posix_dirname_def hd Let_def)
  next
    case False
    with d have "\<not> list_all ?P (d @ ss)"
      by (cases d rule: rev_cases) (auto simp: list_all_iff)
    with False r show ?thesis by (simp add: posix_dirname_def hd Let_def)
  qed
  with t drv show ?thesis by (simp add: posix_basename_def)
qed

lemma nt_splitdrive_shape:
  assumes "drive_shape Nt drv rest"
  shows "nt_splitdrive (drv @ rest) = (drv, rest)"
proof -
  let ?N = "\<lambda>c. \<not> nt_sep c"
  from assms consider
      (letter) "length drv = 2" "drv ! 1 = CHR '':''"
    | (unc) "unc_share drv" "rest = [] \<or> is_sep Nt (hd rest)"
    | (none) "drv = []" "case rest of c0 # c1 # _ \<Rightarrow>
          c1 \<noteq> CHR '':'' \<and> \<not> (is_sep Nt c0 \<and> is_sep Nt c1) | _ \<Rightarrow> True"
    unfolding drive_shape_def by auto
  then show ?thesis
  proof cases
    case letter
    then obtain c where "drv = [c, CHR '':'']"
      by (cases drv; cases "tl drv") auto
    then show ?thesis by (simp add: nt_splitdrive_def nt_sep_def)
  next
    case unc
    from unc(1) obtain s1 s2 t s3 share where drv: "drv = s1 # s2 # t"
      and s12: "nt_sep s1" "nt_sep s2" and srv: "takeWhile ?N t \<noteq> []"
      and dw: "dropWhile ?N t = s3 # share" and sh: "share \<noteq> []" "list_all ?N share"
      by (auto simp: unc_share_def is_sep_Nt split: list.splits)
    from dw have s3: "nt_sep s3" using hd_dropWhile [of ?N t] by auto
    from srv obtain c2 t' where t: "t = c2 # t'" "\<not> nt_sep c2" by (cases t) (auto split: if_splits)
    have tw: "t = takeWhile ?N t @ s3 # share" using dw takeWhile_dropWhile_id [of ?N t] by simp
    have srvN: "\<forall>x\<in>set (takeWhile ?N t). ?N x" by (auto dest: set_takeWhileD)
    have 1: "dropWhile ?N (t @ rest) = s3 # share @ rest"
    proof -
      have "dropWhile ?N (t @ rest) = dropWhile ?N (takeWhile ?N t @ (s3 # share @ rest))"
        using tw by (metis append.assoc append_Cons)
      also have "\<dots> = s3 # share @ rest" using srvN s3 by (simp add: dropWhile_append2)
      finally show ?thesis .
    qed
    have 2: "takeWhile ?N (t @ rest) = takeWhile ?N t"
    proof -
      have "takeWhile ?N (t @ rest) = takeWhile ?N (takeWhile ?N t @ (s3 # share @ rest))"
        using tw by (metis append.assoc append_Cons)
      also have "\<dots> = takeWhile ?N t" using srvN s3 by (simp add: takeWhile_append2)
      finally show ?thesis .
    qed
    from sh(2) have shN: "\<forall>x\<in>set share. ?N x" by (simp add: list_all_iff)
    from unc(2) have r: "takeWhile ?N rest = []" "dropWhile ?N rest = rest"
      by (cases rest; auto simp: is_sep_Nt)+
    from shN r have 3: "takeWhile ?N (share @ rest) = share" "dropWhile ?N (share @ rest) = rest"
      by (simp_all add: takeWhile_append2 dropWhile_append2)
    from sh(1) obtain m share' where m: "share = m # share'" by (cases share) auto
    with shN have mN: "\<not> nt_sep m" by simp
    have "nt_splitdrive (s1 # s2 # (t @ rest))
        = (s1 # s2 # takeWhile ?N t @ s3 # share, rest)"
      using s12 t 1 2 3 m mN by (simp add: nt_splitdrive_def)
    with drv tw show ?thesis by simp
  next
    case none
    then show ?thesis
      by (cases rest; cases "tl rest") (auto simp: nt_splitdrive_def is_sep_Nt)
  qed
qed

lemma nt_split_shape:
  assumes "splits_as Nt p drv d ss b"
  shows "nt_split p = (drv @ (if d = [] then ss else d), b)"
proof -
  from assms have p: "p = drv @ ((d @ ss) @ b)" and drv: "drive_shape Nt drv ((d @ ss) @ b)"
    and ss: "list_all nt_sep ss" and b: "list_all (\<lambda>c. \<not> nt_sep c) b"
    and d: "d = [] \<or> \<not> nt_sep (last d)" and e: "d = [] \<or> ss \<noteq> []"
    by (simp_all add: splits_as_def is_sep_Nt)
  from nt_splitdrive_shape [OF drv] p have sd: "nt_splitdrive p = (drv, (d @ ss) @ b)" by simp
  from head_ends_in_separator [of nt_sep, OF ss e] have h: "d @ ss = [] \<or> nt_sep (last (d @ ss))" .
  note c = cut_last_component [of nt_sep, OF b h]
  from strip_separators [of nt_sep, OF ss d] have r: "dropWhile nt_sep (rev (d @ ss)) = rev d" .
  have "nt_split p = (drv @ (if d = [] then d @ ss else d), b)"
    unfolding nt_split_def sd by (simp only: Let_def prod.case c r rev_rev_ident)
  then show ?thesis by simp
qed

lemma path_split:
  assumes "splits_as os p drv d ss b"
  shows "basename os p = b" and "dirname os p = drv @ (if d = [] then ss else d)"
  using assms posix_split [of p drv d ss b] nt_split_shape [of p drv d ss b]
  by (cases os; simp add: basename_def dirname_def)+

lemma last_run_exists: "\<exists>h b. p = h @ b \<and> list_all Q b \<and> (h = [] \<or> \<not> Q (last h))"
proof (induction p rule: rev_induct)
  case Nil
  then show ?case by simp
next
  case (snoc x xs)
  show ?case
  proof (cases "Q x")
    case True
    from snoc obtain h b where "xs = h @ b" "list_all Q b" "h = [] \<or> \<not> Q (last h)" by blast
    with True have "xs @ [x] = h @ (b @ [x]) \<and> list_all Q (b @ [x]) \<and> (h = [] \<or> \<not> Q (last h))"
      by simp
    then show ?thesis by blast
  next
    case False
    then have "xs @ [x] = (xs @ [x]) @ [] \<and> list_all Q [] \<and> (xs @ [x] = [] \<or> \<not> Q (last (xs @ [x])))"
      by simp
    then show ?thesis by blast
  qed
qed

lemma components_exist:
  "\<exists>d ss b. p = d @ ss @ b \<and> list_all P ss \<and> list_all (\<lambda>c. \<not> P c) b
     \<and> (d = [] \<or> \<not> P (last d)) \<and> (d = [] \<or> ss \<noteq> [])"
proof -
  from last_run_exists [of p "\<lambda>c. \<not> P c"] obtain h b where
    1: "p = h @ b" "list_all (\<lambda>c. \<not> P c) b" "h = [] \<or> P (last h)" by auto
  from last_run_exists [of h P] obtain d ss where
    2: "h = d @ ss" "list_all P ss" "d = [] \<or> \<not> P (last d)" by auto
  from 1(3) 2 have "d = [] \<or> ss \<noteq> []" by auto
  with 1 2 have "p = d @ ss @ b \<and> list_all P ss \<and> list_all (\<lambda>c. \<not> P c) b
     \<and> (d = [] \<or> \<not> P (last d)) \<and> (d = [] \<or> ss \<noteq> [])" by simp
  then show ?thesis by blast
qed

text \<open>
  Every POSIX path reads in this way, and so does every Windows path behind a drive of one
  of the three shapes.
\<close>

lemma posix_paths_split: "\<exists>d ss b. splits_as Posix p [] d ss b"
  using components_exist [of p "\<lambda>c. c = CHR ''/''"]
  by (simp add: splits_as_def drive_shape_def is_sep_Posix)

lemma nt_paths_split:
  assumes "drive_shape Nt drv rest"
  shows "\<exists>d ss b. rest = d @ ss @ b \<and> splits_as Nt (drv @ rest) drv d ss b"
proof -
  from components_exist [of rest "is_sep Nt"] obtain d ss b where
    "rest = d @ ss @ b" "list_all (is_sep Nt) ss" "list_all (\<lambda>c. \<not> is_sep Nt c) b"
    "d = [] \<or> \<not> is_sep Nt (last d)" "d = [] \<or> ss \<noteq> []" by blast
  with assms have "rest = d @ ss @ b \<and> splits_as Nt (drv @ rest) drv d ss b"
    by (simp add: splits_as_def)
  then show ?thesis by blast
qed

text \<open>
  Claim C4. Let the path read as a drive, a directory, separators and a last component
  \<open>b\<close>, and let the resolved path read as the drive \<open>rdrv\<close>, the directory \<open>rd\<close>, separators
  and a last component. With the extra flags \<open>fs\<close> configured, \<open>get_blame\<close> starts exactly
  one process: the five fixed words, then \<open>fs\<close> in order, then \<open>--\<close>, then \<open>b\<close>, which holds
  no separator; the working directory is \<open>rdrv\<close> with \<open>rd\<close>, the parent directory of the
  resolved path (for a file directly under the root, the root).
\<close>

theorem get_blame_command:
  assumes "splits_as (platform en) path drv d ss b"
    and "splits_as (platform en) (realpath en path) rdrv rd rss rb"
  shows "get_blame (en\<lparr>custom_blame_flags := Some fs\<rparr>) path v =
     (git en \<lparr>cmd_line = [''git'', ''blame'', ''--show-name'', ''--minimal'', ''-w''] @ fs
                 @ [''--'', b],
              cwd = rdrv @ (if rd = [] then rss else rd), stderr_to_stdout = True\<rparr>,
      v\<lparr>invocations := invocations v
           @ [\<lparr>cmd_line = [''git'', ''blame'', ''--show-name'', ''--minimal'', ''-w''] @ fs
                  @ [''--'', b],
               cwd = rdrv @ (if rd = [] then rss else rd), stderr_to_stdout = True\<rparr>]\<rparr>)"
  using path_split [OF assms(1)] path_split [OF assms(2)]
  by (simp add: get_blame_def blame_invocation_def extra_flags_def Let_def)

section \<open>Erasing\<close>

text \<open>
  Claim C7. When the flag of a view is set and its buffer is modified, the listener erases
  the phantoms and the flag is no longer set.
\<close>

theorem modification_clears_display:
  assumes "settings_get (settings v) SETTING_PHANTOM_ALL_DISPLAYED False"
  shows "phantoms (buffer_modified v) PHANTOM_KEY_ALL = []
     \<and> \<not> settings_get (settings (buffer_modified v)) SETTING_PHANTOM_ALL_DISPLAYED False"
  using assms
  by (simp add: buffer_modified_def is_applicable_def on_modified_async_def settings_erase_def
      erase_all_run_def erase_phantoms_def status_message_def settings_get_def)

text \<open>
  \<open>BlameEraseAll.run\<close> erases the phantoms but leaves the settings of the view as they
  are; so does closing a phantom.
\<close>

theorem erase_all_keeps_flag:
  "phantoms (erase_all_run v) PHANTOM_KEY_ALL = []
     \<and> settings (erase_all_run v) = settings v
     \<and> settings (on_phantom_close ''close'' v) = settings v"
  by (simp add: on_phantom_close_def erase_all_run_def erase_phantoms_def status_message_def)

text \<open>
  Claim C10, amended. When \<open>view_is_suitable\<close> holds and the flag is set, the command
  empties the phantoms of its key, stores \<open>False\<close> in the flag and returns: no process is
  started, the pattern is left as it was, and every other part of the state is unchanged.
\<close>

theorem toggle_off_frame:
  assumes "suitable v" and "settings_get (settings v) SETTING_PHANTOM_ALL_DISPLAYED False"
  shows "show_all_run en v =
     (v\<lparr>phantoms := (phantoms v)(PHANTOM_KEY_ALL := []),
        settings := (settings v)(SETTING_PHANTOM_ALL_DISPLAYED \<mapsto> False)\<rparr>, None)"
  using assms
  by (simp add: show_all_run_def erase_phantoms_def phantom_set_update_def settings_set_def)

section \<open>Evaluation on concrete inputs\<close>

lemma no_such_path_unmatched: "re_match prepare_pattern ''fatal: no such path'' = None"
  by code_simp

lemma no_such_path_lines: "splitlines ''fatal: no such path'' = [''fatal: no such path'']"
  by code_simp

text \<open>
  Claim C2 says that a line which the grammar does not accept yields no record and raises
  nothing. The source calls \<open>m.groupdict()\<close> without a test of \<open>m\<close>: on the line
  \<open>fatal: no such path\<close> the match is \<open>None\<close> and \<open>parse_blame\<close> raises \<open>AttributeError\<close>.
\<close>

theorem parse_blame_unmatched_raises:
  "fst (parse_blame None ''fatal: no such path'') = Inl AttributeError"
  by (simp add: parse_blame_def no_such_path_unmatched)

text \<open>
  Claim C3 says that output without a line that parses is reported with the static
  message. \<open>run\<close> calls \<open>parse_blame\<close> outside its \<open>try\<close>: on the output
  \<open>fatal: no such path\<close> the exception leaves the command and nothing is reported. No
  phantom is shown and the flag is not set.
\<close>

theorem run_unparsed_output_raises:
  "snd (show_all_run example_env example_view) = Some AttributeError
   \<and> errors (fst (show_all_run example_env example_view)) = []
   \<and> phantoms (fst (show_all_run example_env example_view)) PHANTOM_KEY_ALL = []
   \<and> settings (fst (show_all_run example_env example_view)) SETTING_PHANTOM_ALL_DISPLAYED = None"
  by (simp add: show_all_run_def example_env_def example_view_def erase_phantoms_def
      settings_get_def get_blame_def Let_def no_such_path_lines parse_blame_def
      no_such_path_unmatched)

text \<open>
  The same happens on the output of \<open>git blame -s\<close>, which leaves the author and the
  date out; output without any line is reported with the static message.
\<close>

lemma short_format_unmatched: "re_match prepare_pattern ''abc1234 a.py 1) x = 1'' = None"
  by code_simp

lemma short_format_lines: "splitlines ''abc1234 a.py 1) x = 1'' = [''abc1234 a.py 1) x = 1'']"
  by code_simp

lemma short_format_raises:
  "snd (show_all_run short_env example_view) = Some AttributeError
   \<and> errors (fst (show_all_run short_env example_view)) = []"
  by (simp add: show_all_run_def short_env_def example_view_def erase_phantoms_def
      settings_get_def get_blame_def Let_def short_format_lines parse_blame_def
      short_format_unmatched)

lemma empty_output_reported:
  "errors (fst (show_all_run (example_env\<lparr>git := (\<lambda>i. Inr [])\<rparr>) example_view))
     = [Message parse_failed_message]
   \<and> snd (show_all_run (example_env\<lparr>git := (\<lambda>i. Inr [])\<rparr>) example_view) = None"
  by (simp add: show_all_run_def example_env_def example_view_def erase_phantoms_def
      settings_get_def get_blame_def Let_def splitlines_def communicate_error_def)

lemma scenario_a:
  "fst (parse_blame None
      ''abc1234 file.py        (Alice Smith 2021-05-01 10:00:00 +0000 3) some code'')
   = Inr [(''sha'', ''abc1234''), (''file'', ''file.py       ''), (''author'', ''Alice Smith''),
          (''date'', ''2021-05-01''), (''time'', ''10:00:00''), (''timezone'', ''+0000''),
          (''line_number'', ''3'')]"
  by code_simp

text \<open>
  Claim C1 says that the fields of the record are the pieces of the line. The line below
  is accepted by the grammar with the author \<open>John Smith (Contractor)\<close>; the file group
  of the pattern takes everything up to the last \<open>" ("\<close> after which the rest parses, so
  the record shows the author \<open>Contractor)\<close> and the file \<open>f.py (John Smith\<close>.
\<close>

theorem author_in_parentheses_misparsed:
  "grammar_ok contractor
   \<and> assemble contractor
       = ''abc1234 f.py (John Smith (Contractor) 2021-05-01 10:00:00 +0000 3) ''
   \<and> fst (parse_blame None
        ''abc1234 f.py (John Smith (Contractor) 2021-05-01 10:00:00 +0000 3) '')
     = Inr [(''sha'', ''abc1234''), (''file'', ''f.py (John Smith''), (''author'', ''Contractor)''),
            (''date'', ''2021-05-01''), (''time'', ''10:00:00''), (''timezone'', ''+0000''),
            (''line_number'', ''3'')]"
  by code_simp

text \<open>
  The boundary-commit line of Scenario B, followed by source text: the record keeps
  \<open>^deadbeef\<close>.
\<close>

lemma scenario_b_returns_cut:
  "grammar_ok scenario_b
   \<and> (\<exists>q rest'. grammar_ok q \<and> assemble scenario_b @ ''some code'' = assemble q @ rest'
         \<and> g_sha q = g_sha scenario_b
         \<and> fst (parse_blame None (assemble scenario_b @ ''some code'')) = Inr (record_of q))"
proof -
  have h: "grammar_ok scenario_b" by code_simp
  from parse_blame_returns_cut [of None scenario_b "''some code''"] h show ?thesis by simp
qed

text \<open>
  Claim C9 says that the text after the closing \<open>") "\<close> has no effect on any field. Both
  lines below start with the same text that the grammar accepts, through its closing
  \<open>") "\<close>. The source text that follows in the second line changes the file, the author,
  the date, the time, the time zone and the line number of the record.
\<close>

theorem trailing_text_changes_fields:
  "fst (parse_blame None ''a f (A 2021-05-01 10:00:00 +0000 3) '')
     = Inr [(''sha'', ''a''), (''file'', ''f''), (''author'', ''A''), (''date'', ''2021-05-01''),
            (''time'', ''10:00:00''), (''timezone'', ''+0000''), (''line_number'', ''3'')]
   \<and> fst (parse_blame None
        ''a f (A 2021-05-01 10:00:00 +0000 3) x (B 2022-01-02 11:00:00 -0530 7) '')
     = Inr [(''sha'', ''a''), (''file'', ''f (A 2021-05-01 10:00:00 +0000 3) x''),
            (''author'', ''B''), (''date'', ''2022-01-02''), (''time'', ''11:00:00''),
            (''timezone'', ''-0530''), (''line_number'', ''7'')]"
  by code_simp

text \<open>
  The line of Scenario B with and without the source text \<open>some code\<close>.
\<close>

lemma scenario_b_trailing_text:
  "grammar_ok scenario_b \<and> \<not> has_close ''some code''
   \<and> (\<exists>r. fst (parse_blame None (assemble scenario_b @ ''some code'')) = Inr r
          \<and> getitem r ''sha'' = Inr (g_sha scenario_b))
   \<and> fst (parse_blame None (assemble scenario_b @ ''some code''))
       = fst (parse_blame None (assemble scenario_b))"
proof -
  have h: "grammar_ok scenario_b" by code_simp
  have c: "\<not> has_close ''some code''" by simp
  from trailing_text_without_close [of None scenario_b "''some code''"] h c show ?thesis by blast
qed

text \<open>
  A file reached through a symbolic link: the command names \<open>a.py\<close> and runs in the
  directory of the resolved path.
\<close>

theorem get_blame_command_witness:
  "splits_as Posix ''/home/u/link/a.py'' [] ''/home/u/link'' ''/'' ''a.py''
   \<and> splits_as Posix ''/srv/repo/a.py'' [] ''/srv/repo'' ''/'' ''a.py''
   \<and> get_blame (linked_env\<lparr>custom_blame_flags := Some [''-M'']\<rparr>) ''/home/u/link/a.py''
        example_view =
     (Inr [],
      example_view\<lparr>invocations :=
        [\<lparr>cmd_line = [''git'', ''blame'', ''--show-name'', ''--minimal'', ''-w'', ''-M'', ''--'',
             ''a.py''],
          cwd = ''/srv/repo'', stderr_to_stdout = True\<rparr>]\<rparr>)"
proof -
  have h1: "splits_as (platform linked_env) ''/home/u/link/a.py'' [] ''/home/u/link'' ''/'' ''a.py''"
    by (simp add: splits_as_def drive_shape_def is_sep_def linked_env_def)
  have h2: "splits_as (platform linked_env) (realpath linked_env ''/home/u/link/a.py'') []
      ''/srv/repo'' ''/'' ''a.py''"
    by (simp add: splits_as_def drive_shape_def is_sep_def linked_env_def)
  from get_blame_command [OF h1 h2, of "[''-M'']" example_view] h1 h2
  show ?thesis by (simp add: linked_env_def example_view_def)
qed

text \<open>The same on Windows, for a path with a drive letter and for a UNC path.\<close>

lemma windows_drive_path:
  "blame_invocation windows_env windows_path =
     \<lparr>cmd_line = [''git'', ''blame'', ''--show-name'', ''--minimal'', ''-w'', ''--'', ''a.py''],
      cwd = ''C:'' @ [CHR 0x5C] @ ''repo'', stderr_to_stdout = True\<rparr>"
  by code_simp

lemma windows_unc_path:
  "blame_invocation windows_env unc_path =
     \<lparr>cmd_line = [''git'', ''blame'', ''--show-name'', ''--minimal'', ''-w'', ''--'', ''a.py''],
      cwd = [CHR 0x5C, CHR 0x5C] @ ''srv'' @ [CHR 0x5C] @ ''share'' @ [CHR 0x5C] @ ''repo'',
      stderr_to_stdout = True\<rparr>"
  by code_simp

lemma windows_paths_split:
  "splits_as Nt windows_path ''C:'' ([CHR 0x5C] @ ''repo'') [CHR 0x5C] ''a.py''
   \<and> splits_as Nt unc_path ([CHR 0x5C, CHR 0x5C] @ ''srv'' @ [CHR 0x5C] @ ''share'')
        ([CHR 0x5C] @ ''repo'') [CHR 0x5C] ''a.py''"
  by code_simp


text \<open>A line number with leading zeros.\<close>

lemma line_number_0012:
  "py_int ''0012'' = Inr 12 \<and> ''0012'' = replicate 2 (CHR ''0'') @ decimal 12"
  by code_simp

lemma scenario_d_phantoms:
  "bind_exc (max_author_len (map record_of scenario_d))
     (\<lambda>m. make_phantoms m (map record_of scenario_d))
   = Inr [\<lparr>ph_region = LineRegion 0, ph_sha = ''abc1234'',
           ph_user = ''Al&nbsp;&nbsp;&nbsp;&nbsp;&nbsp;&nbsp;&nbsp;'',
           ph_date = ''2021-05-01'', ph_time = ''10:00:00''\<rparr>,
          \<lparr>ph_region = LineRegion 1, ph_sha = ''def5678'', ph_user = ''Bob Jones'',
           ph_date = ''2021-06-02'', ph_time = ''11:30:00''\<rparr>]"
  by code_simp


text \<open>
  A view that shows one phantom, then modified.
\<close>

theorem modification_clears_display_witness:
  "settings_get (settings shown_view) SETTING_PHANTOM_ALL_DISPLAYED False
   \<and> phantoms shown_view PHANTOM_KEY_ALL = [example_phantom]
   \<and> phantoms (buffer_modified shown_view) PHANTOM_KEY_ALL = []
   \<and> \<not> settings_get (settings (buffer_modified shown_view)) SETTING_PHANTOM_ALL_DISPLAYED False"
proof -
  have h: "settings_get (settings shown_view) SETTING_PHANTOM_ALL_DISPLAYED False"
    by (simp add: shown_view_def example_view_def settings_get_def)
  have p: "phantoms shown_view PHANTOM_KEY_ALL = [example_phantom]"
    by (simp add: shown_view_def example_view_def)
  from modification_clears_display [OF h] h p show ?thesis by simp
qed

text \<open>
  Claim C8 says that the erase command clears the flag. On a view that shows one phantom
  the command erases the phantom, and the flag is still set afterwards.
\<close>

theorem erase_all_flag_example:
  "settings_get (settings (erase_all_run shown_view)) SETTING_PHANTOM_ALL_DISPLAYED False
   \<and> phantoms (erase_all_run shown_view) PHANTOM_KEY_ALL = []"
  by (simp add: erase_all_run_def erase_phantoms_def status_message_def shown_view_def
      example_view_def settings_get_def)

text \<open>
  Claim C10 as stated fails for a view that \<open>view_is_suitable\<close> rejects: the command
  returns at once, the flag stays set and the phantom stays.
\<close>

theorem unsuitable_view_keeps_display:
  "settings_get (settings dirty_view) SETTING_PHANTOM_ALL_DISPLAYED False
   \<and> settings_get (settings (fst (show_all_run example_env dirty_view)))
        SETTING_PHANTOM_ALL_DISPLAYED False
   \<and> phantoms (fst (show_all_run example_env dirty_view)) PHANTOM_KEY_ALL = [example_phantom]"
  by (simp add: show_all_run_def dirty_view_def shown_view_def example_view_def settings_get_def)

text \<open>
  The view that shows one phantom: the command toggles the display off.
\<close>

theorem toggle_off_frame_witness:
  "suitable shown_view
   \<and> settings_get (settings shown_view) SETTING_PHANTOM_ALL_DISPLAYED False
   \<and> show_all_run example_env shown_view =
       (shown_view\<lparr>phantoms := (phantoms shown_view)(PHANTOM_KEY_ALL := []),
          settings := (settings shown_view)(SETTING_PHANTOM_ALL_DISPLAYED \<mapsto> False)\<rparr>, None)"
proof -
  have h1: "suitable shown_view" by (simp add: shown_view_def example_view_def)
  have h2: "settings_get (settings shown_view) SETTING_PHANTOM_ALL_DISPLAYED False"
    by (simp add: shown_view_def example_view_def settings_get_def)
  from toggle_off_frame [OF h1 h2, of example_env] h1 h2 show ?thesis by simp
qed

end
